theory Spec2Isabelle
  imports Complex_Main "HOL-Library.AList" "HOL-Library.Multiset" "HOL-Library.Sublist" "HOL-Library.Word"
begin

section \<open>Dependency graph resolver (\<^verbatim>\<open>thalos_utils.DependencyResolver\<close>)\<close>

text \<open>
  The resolver keeps \<^verbatim>\<open>dependency_graph: Dict[str, List[str]]\<close>. A Python dict iterates in
  insertion order, so the graph is an association list; \<^verbatim>\<open>dependency_graph.get(node, [])\<close>
  is a lookup with the empty list as default, and \<^verbatim>\<open>for node in dependency_graph\<close> runs
  over the keys in order.
\<close>

type_synonym node = string
type_synonym graph = "(node \<times> node list) list"

text \<open>\<^verbatim>\<open>add_dependency\<close>: \<^verbatim>\<open>self.dependency_graph[package] = depends_on\<close>. Assigning to
  a key that is present keeps its position; a new key goes to the end.\<close>

definition add_dependency :: "graph \<Rightarrow> node \<Rightarrow> node list \<Rightarrow> graph" where
  "add_dependency g package depends_on = AList.update package depends_on g"

datatype py_error =
  ValueError | KeyError | TypeError | AttributeError | RecursionError | OSError

definition deps :: "graph \<Rightarrow> node \<Rightarrow> node list" where
  "deps g n = (case map_of g n of None \<Rightarrow> [] | Some ds \<Rightarrow> ds)"

definition nodes :: "graph \<Rightarrow> node set" where
  "nodes g = set (map fst g) \<union> (\<Union>ds \<in> set (map snd g). set ds)"

text \<open>
  \<^verbatim>\<open>get_build_order\<close>: the inner \<^verbatim>\<open>visit\<close> closes over \<^verbatim>\<open>visited\<close> (a set) and
  \<^verbatim>\<open>result\<close> (a list), which are threaded here as a pair. \<open>order_visit_deps\<close> is the
  \<^verbatim>\<open>for dep in ...: visit(dep)\<close> loop; the final loop over the keys of the graph is the same
  loop started on the empty state. The bound of the interpreter on nested calls is added
  in \<open>order_visit_limited\<close> below.
\<close>

function order_visit :: "graph \<Rightarrow> node \<Rightarrow> node set \<times> node list \<Rightarrow> node set \<times> node list"
  and order_visit_deps :: "graph \<Rightarrow> node list \<Rightarrow> node set \<times> node list \<Rightarrow> node set \<times> node list" where
  "order_visit g n (visited, result) =
     (if n \<in> visited then (visited, result)
      else (case order_visit_deps g (deps g n) (insert n visited, result) of
              (visited', result') \<Rightarrow> (visited', result' @ [n])))"
| "order_visit_deps g [] s = s"
| "order_visit_deps g (d # ds) s = order_visit_deps g ds (order_visit g d s)"
  by pat_completeness auto

lemma deps_subset_nodes: "set (deps g n) \<subseteq> nodes g"
proof (cases "map_of g n")
  case None
  then show ?thesis by (simp add: deps_def)
next
  case (Some ds)
  then have "(n, ds) \<in> set g" by (rule map_of_SomeD)
  then have "ds \<in> snd ` set g" by force
  with Some show ?thesis by (auto simp: deps_def nodes_def)
qed

lemma order_visit_mono_dom:
  "order_visit_order_visit_deps_dom (Inl (g, n, s)) \<Longrightarrow> fst s \<subseteq> fst (order_visit g n s)"
  "order_visit_order_visit_deps_dom (Inr (g, ds, s)) \<Longrightarrow> fst s \<subseteq> fst (order_visit_deps g ds s)"
proof (induction g n s and g ds s rule: order_visit_order_visit_deps.pinduct)
  case (1 g n visited result)
  then show ?case
    by (auto simp: order_visit.psimps split: prod.splits)
next
  case (2 g s)
  then show ?case by (simp add: order_visit_deps.psimps)
next
  case (3 g d ds s)
  then show ?case by (auto simp: order_visit_deps.psimps)
qed

definition unvisited :: "graph \<Rightarrow> node set \<Rightarrow> node set \<Rightarrow> nat" where
  "unvisited g extra visited = card ((nodes g \<union> extra) - visited)"

lemma finite_nodes: "finite (nodes g)"
  by (simp add: nodes_def)

lemma unvisited_enter:
  assumes "n \<notin> visited"
  shows "unvisited g (set (deps g n)) (insert n visited) < unvisited g {n} visited"
proof -
  have "(nodes g \<union> set (deps g n)) - insert n visited \<subset> (nodes g \<union> {n}) - visited"
    using assms deps_subset_nodes [of g n] by auto
  then show ?thesis
    unfolding unvisited_def by (intro psubset_card_mono) (auto simp: finite_nodes)
qed

lemma unvisited_mono:
  assumes "extra \<subseteq> extra'" "finite extra'" "visited \<subseteq> visited'"
  shows "unvisited g extra visited' \<le> unvisited g extra' visited"
  unfolding unvisited_def using assms
  by (intro card_mono) (auto simp: finite_nodes)

definition order_measure ::
  "(graph \<times> node \<times> node set \<times> node list) + (graph \<times> node list \<times> node set \<times> node list) \<Rightarrow> nat \<times> nat" where
  "order_measure x = (case x of
      Inl (g, n, visited, result) \<Rightarrow> (unvisited g {n} visited, 0)
    | Inr (g, ds, visited, result) \<Rightarrow> (unvisited g (set ds) visited, Suc (length ds)))"

lemma order_visit_total: "All order_visit_order_visit_deps_dom"
proof (rule "order_visit_order_visit_deps.termination")
  show "wf (inv_image (less_than <*lex*> less_than) order_measure)"
    by (intro wf_inv_image wf_lex_prod wf_less_than)
next
  fix g n visited result
  assume "n \<notin> (visited :: node set)"
  then show "(Inr (g, deps g n, insert n visited, result), Inl (g, n, visited, result))
      \<in> inv_image (less_than <*lex*> less_than) order_measure"
    by (simp add: order_measure_def unvisited_enter)
next
  fix g d ds and s :: "node set \<times> node list"
  have "unvisited g {d} (fst s) \<le> unvisited g (set (d # ds)) (fst s)"
    by (rule unvisited_mono) auto
  then show "(Inl (g, d, s), Inr (g, d # ds, s))
      \<in> inv_image (less_than <*lex*> less_than) order_measure"
    by (cases s) (auto simp: order_measure_def)
next
  fix g d ds and s :: "node set \<times> node list"
  assume "order_visit_order_visit_deps_dom (Inl (g, d, s))"
  then have "fst s \<subseteq> fst (order_visit g d s)"
    by (rule order_visit_mono_dom)
  then have "unvisited g (set ds) (fst (order_visit g d s)) \<le> unvisited g (set (d # ds)) (fst s)"
    by (intro unvisited_mono) auto
  then show "(Inr (g, ds, order_visit g d s), Inr (g, d # ds, s))
      \<in> inv_image (less_than <*lex*> less_than) order_measure"
    by (cases s; cases "order_visit g d s") (auto simp: order_measure_def)
qed

termination order_visit
  using order_visit_total by blast

definition get_build_order :: "graph \<Rightarrow> node list" where
  "get_build_order g = snd (order_visit_deps g (map fst g) ({}, []))"

text \<open>
  \<^verbatim>\<open>detect_cycles\<close>: \<^verbatim>\<open>path.index(node)\<close> raises \<^verbatim>\<open>ValueError\<close> when the node is not in
  the path and \<^verbatim>\<open>rec_stack.remove(node)\<close> raises \<^verbatim>\<open>KeyError\<close> when the node is not in the
  set; both are branches of the model. The state is \<open>(cycles, visited, rec_stack)\<close>; the
  boolean result of \<^verbatim>\<open>visit\<close> is returned as in the source (no caller reads it). The
  bound of the interpreter on nested calls is added in \<open>cycle_visit_limited\<close> below.
\<close>

fun list_index :: "'a list \<Rightarrow> 'a \<Rightarrow> nat option" where
  "list_index [] x = None"
| "list_index (y # ys) x = (if y = x then Some 0 else map_option Suc (list_index ys x))"

type_synonym cycle_state = "node list list \<times> node set \<times> node set"

function cycle_visit :: "graph \<Rightarrow> node \<Rightarrow> node list \<Rightarrow> cycle_state \<Rightarrow> py_error + (bool \<times> cycle_state)"
  and cycle_visit_deps :: "graph \<Rightarrow> node list \<Rightarrow> node list \<Rightarrow> cycle_state \<Rightarrow> py_error + cycle_state" where
  "cycle_visit g n path (cycles, visited, rec_stack) =
     (if n \<in> rec_stack then
        (case list_index path n of
           None \<Rightarrow> Inl ValueError
         | Some cycle_start \<Rightarrow>
             Inr (True, (cycles @ [drop cycle_start path @ [n]], visited, rec_stack)))
      else if n \<in> visited then Inr (False, (cycles, visited, rec_stack))
      else
        (case cycle_visit_deps g (deps g n) (path @ [n])
                (cycles, insert n visited, insert n rec_stack) of
           Inl e \<Rightarrow> Inl e
         | Inr (cycles', visited', rec_stack') \<Rightarrow>
             if n \<in> rec_stack' then Inr (False, (cycles', visited', rec_stack' - {n}))
             else Inl KeyError))"
| "cycle_visit_deps g [] path s = Inr s"
| "cycle_visit_deps g (d # ds) path s =
     (case cycle_visit g d path s of
        Inl e \<Rightarrow> Inl e
      | Inr (found, s') \<Rightarrow> cycle_visit_deps g ds path s')"
  by pat_completeness auto

lemma cycle_visit_mono_dom:
  "cycle_visit_cycle_visit_deps_dom (Inl (g, n, path, s)) \<Longrightarrow>
     \<forall>found s'. cycle_visit g n path s = Inr (found, s') \<longrightarrow> fst (snd s) \<subseteq> fst (snd s')"
  "cycle_visit_cycle_visit_deps_dom (Inr (g, ds, path, s)) \<Longrightarrow>
     \<forall>s'. cycle_visit_deps g ds path s = Inr s' \<longrightarrow> fst (snd s) \<subseteq> fst (snd s')"
proof (induction g n path s and g ds path s rule: cycle_visit_cycle_visit_deps.pinduct)
  case (1 g n path cycles visited rec_stack)
  then show ?case
    by (auto simp: cycle_visit.psimps split: option.splits sum.splits if_splits)
next
  case (2 g path s)
  then show ?case by (simp add: cycle_visit_deps.psimps)
next
  case (3 g d ds path s)
  show ?case
  proof (intro allI impI)
    fix s'
    assume r: "cycle_visit_deps g (d # ds) path s = Inr s'"
    with 3(1) obtain found s1 where
      v: "cycle_visit g d path s = Inr (found, s1)" and
      w: "cycle_visit_deps g ds path s1 = Inr s'"
      by (auto simp: cycle_visit_deps.psimps split: sum.splits)
    from 3(2) v have "fst (snd s) \<subseteq> fst (snd s1)" by blast
    moreover from 3(3) [OF v refl] w have "fst (snd s1) \<subseteq> fst (snd s')" by blast
    ultimately show "fst (snd s) \<subseteq> fst (snd s')" by blast
  qed
qed

definition cycle_measure ::
  "(graph \<times> node \<times> node list \<times> cycle_state) + (graph \<times> node list \<times> node list \<times> cycle_state)
     \<Rightarrow> nat \<times> nat" where
  "cycle_measure x = (case x of
      Inl (g, n, path, cycles, visited, rec_stack) \<Rightarrow> (unvisited g {n} visited, 0)
    | Inr (g, ds, path, cycles, visited, rec_stack) \<Rightarrow>
        (unvisited g (set ds) visited, Suc (length ds)))"

lemma cycle_visit_total: "All cycle_visit_cycle_visit_deps_dom"
proof (rule "cycle_visit_cycle_visit_deps.termination")
  show "wf (inv_image (less_than <*lex*> less_than) cycle_measure)"
    by (intro wf_inv_image wf_lex_prod wf_less_than)
next
  fix g n path cycles and visited rec_stack :: "node set"
  assume "n \<notin> visited"
  then show "(Inr (g, deps g n, path @ [n], cycles, insert n visited, insert n rec_stack),
        Inl (g, n, path, cycles, visited, rec_stack))
      \<in> inv_image (less_than <*lex*> less_than) cycle_measure"
    by (simp add: cycle_measure_def unvisited_enter)
next
  fix g d ds path and s :: cycle_state
  have "unvisited g {d} (fst (snd s)) \<le> unvisited g (set (d # ds)) (fst (snd s))"
    by (rule unvisited_mono) auto
  then show "(Inl (g, d, path, s), Inr (g, d # ds, path, s))
      \<in> inv_image (less_than <*lex*> less_than) cycle_measure"
    by (cases s) (auto simp: cycle_measure_def)
next
  fix g d ds path and s y :: cycle_state and b x
  assume "cycle_visit g d path s = Inr b" "(x, y) = b"
    and "cycle_visit_cycle_visit_deps_dom (Inl (g, d, path, s))"
  then have "fst (snd s) \<subseteq> fst (snd y)"
    using cycle_visit_mono_dom(1) by blast
  then have "unvisited g (set ds) (fst (snd y)) \<le> unvisited g (set (d # ds)) (fst (snd s))"
    by (intro unvisited_mono) auto
  then show "(Inr (g, ds, path, y), Inr (g, d # ds, path, s))
      \<in> inv_image (less_than <*lex*> less_than) cycle_measure"
    by (cases s; cases y) (auto simp: cycle_measure_def)
qed

termination cycle_visit
  using cycle_visit_total by blast

definition detect_cycles :: "graph \<Rightarrow> py_error + node list list" where
  "detect_cycles g =
     (case cycle_visit_deps g (map fst g) [] ([], {}, {}) of
        Inl e \<Rightarrow> Inl e
      | Inr (cycles, visited, rec_stack) \<Rightarrow> Inr cycles)"





section \<open>Properties of the resolver\<close>

text \<open>
  The dependency relation of a graph: \<open>(a, b)\<close> is an edge when \<open>b\<close> is in the list stored
  for \<open>a\<close>. A dependency path follows edges; a cycle is a dependency path of at least two
  entries that ends where it starts and repeats no other node.
\<close>

definition edges :: "graph \<Rightarrow> (node \<times> node) set" where
  "edges g = {(a, b). b \<in> set (deps g a)}"

definition dep_path :: "graph \<Rightarrow> node list \<Rightarrow> bool" where
  "dep_path g p = successively (\<lambda>a b. b \<in> set (deps g a)) p"

definition is_cycle :: "graph \<Rightarrow> node list \<Rightarrow> bool" where
  "is_cycle g c = (2 \<le> length c \<and> hd c = last c \<and> distinct (butlast c) \<and> dep_path g c)"

lemma list_index_Some:
  "x \<in> set xs \<Longrightarrow> \<exists>i. list_index xs x = Some i \<and> i < length xs \<and> xs ! i = x \<and> x \<notin> set (take i xs)"
proof (induction xs)
  case Nil
  then show ?case by simp
next
  case (Cons y ys)
  show ?case
  proof (cases "y = x")
    case True
    then show ?thesis by simp
  next
    case False
    with Cons obtain i where "list_index ys x = Some i" "i < length ys" "ys ! i = x" "x \<notin> set (take i ys)"
      by auto
    with False show ?thesis by auto
  qed
qed

lemma dep_path_trancl:
  "dep_path g (x # xs @ [y]) \<Longrightarrow> (x, y) \<in> (edges g)\<^sup>+"
proof (induction xs arbitrary: x)
  case Nil
  then show ?case by (auto simp: dep_path_def edges_def)
next
  case (Cons z zs)
  then have "(x, z) \<in> edges g" "dep_path g (z # zs @ [y])"
    by (simp_all add: dep_path_def edges_def)
  with Cons.IH show ?case by (meson trancl_into_trancl2)
qed

lemma dep_path_drop: "dep_path g p \<Longrightarrow> dep_path g (drop i p)"
proof -
  assume "dep_path g p"
  then have "successively (\<lambda>a b. b \<in> set (deps g a)) (take i p @ drop i p)"
    by (simp add: dep_path_def)
  then show ?thesis
    unfolding dep_path_def successively_append_iff by blast
qed

lemma dep_path_snoc:
  "dep_path g (p @ [n]) \<longleftrightarrow> dep_path g p \<and> (p \<noteq> [] \<longrightarrow> n \<in> set (deps g (last p)))"
  by (auto simp: dep_path_def successively_append_iff)

lemma recorded_cycle:
  assumes "n \<in> set path" "distinct path" "dep_path g (path @ [n])"
  shows "\<exists>i. list_index path n = Some i \<and> is_cycle g (drop i path @ [n])"
proof -
  from list_index_Some [OF assms(1)] obtain i where
    i: "list_index path n = Some i" "i < length path" "path ! i = n"
    by blast
  have "drop i (path @ [n]) = drop i path @ [n]"
    using i(2) by simp
  then have "dep_path g (drop i path @ [n])"
    using dep_path_drop [OF assms(3), of i] by simp
  moreover have "hd (drop i path @ [n]) = n"
    using i(2,3) by (simp add: hd_append hd_drop_conv_nth)
  moreover have "distinct (drop i path)"
    using assms(2) by simp
  ultimately have "is_cycle g (drop i path @ [n])"
    using i(2) by (simp add: is_cycle_def)
  with i(1) show ?thesis by blast
qed

definition on_stack :: "node list \<Rightarrow> cycle_state \<Rightarrow> bool" where
  "on_stack path s = (snd (snd s) = set path \<and> distinct path)"

definition cycles_extend :: "graph \<Rightarrow> cycle_state \<Rightarrow> cycle_state \<Rightarrow> bool" where
  "cycles_extend g s s' =
     (\<exists>new. fst s' = fst s @ new \<and> (\<forall>c \<in> set new. is_cycle g c)
        \<and> snd (snd s') = snd (snd s) \<and> fst (snd s) \<subseteq> fst (snd s'))"

lemma cycles_extend_refl: "cycles_extend g s s"
  by (simp add: cycles_extend_def)

lemma cycles_extend_trans:
  "cycles_extend g s s1 \<Longrightarrow> cycles_extend g s1 s2 \<Longrightarrow> cycles_extend g s s2"
  unfolding cycles_extend_def by (elim exE conjE) (rule exI [of _ "_ @ _"], auto)

lemma cycle_visit_sound:
  "on_stack path s \<Longrightarrow> dep_path g (path @ [n]) \<Longrightarrow>
     \<exists>found s'. cycle_visit g n path s = Inr (found, s') \<and> cycles_extend g s s'"
  "on_stack path s \<Longrightarrow> dep_path g path \<Longrightarrow>
     (path \<noteq> [] \<longrightarrow> set ds \<subseteq> set (deps g (last path))) \<Longrightarrow>
     \<exists>s'. cycle_visit_deps g ds path s = Inr s' \<and> cycles_extend g s s'"
proof (induction g n path s and g ds path s rule: cycle_visit_cycle_visit_deps.induct)
  case (1 g n path cycles visited rec_stack)
  note stack = \<open>on_stack path (cycles, visited, rec_stack)\<close>
  note path = \<open>dep_path g (path @ [n])\<close>
  from stack have rs: "rec_stack = set path" and dist: "distinct path"
    by (simp_all add: on_stack_def)
  show ?case
  proof (cases "n \<in> rec_stack")
    case True
    with rs recorded_cycle [OF _ dist path] obtain i where
      "list_index path n = Some i" "is_cycle g (drop i path @ [n])"
      by blast
    with True show ?thesis
      by (auto simp: cycles_extend_def)
  next
    case False
    note not_on_stack = this
    show ?thesis
    proof (cases "n \<in> visited")
      case True
      with not_on_stack show ?thesis by (auto simp: cycles_extend_refl)
    next
      case False
      have "on_stack (path @ [n]) (cycles, insert n visited, insert n rec_stack)"
        using rs dist not_on_stack by (auto simp: on_stack_def)
      from "1.IH" [OF not_on_stack False this path] obtain s' where
        run: "cycle_visit_deps g (deps g n) (path @ [n])
                (cycles, insert n visited, insert n rec_stack) = Inr s'" and
        ext: "cycles_extend g (cycles, insert n visited, insert n rec_stack) s'"
        by auto
      obtain cycles' visited' rec_stack' where s': "s' = (cycles', visited', rec_stack')"
        by (cases s') auto
      from ext s' have top: "rec_stack' = insert n rec_stack"
        by (auto simp: cycles_extend_def)
      then have "rec_stack' - {n} = rec_stack"
        using not_on_stack by auto
      with ext s' have "cycles_extend g (cycles, visited, rec_stack) (cycles', visited', rec_stack' - {n})"
        by (auto simp: cycles_extend_def)
      with run s' top not_on_stack False show ?thesis
        by auto
    qed
  qed
next
  case (2 g path s)
  then show ?case by (simp add: cycles_extend_refl)
next
  case (3 g d ds path s)
  from "3.prems" have "dep_path g (path @ [d])"
    by (simp add: dep_path_snoc)
  from "3.IH"(1) [OF "3.prems"(1) this] obtain found s1 where
    first: "cycle_visit g d path s = Inr (found, s1)" and
    ext1: "cycles_extend g s s1"
    by blast
  from "3.prems"(1) ext1 have "on_stack path s1"
    by (auto simp: on_stack_def cycles_extend_def)
  from "3.IH"(2) [OF first refl this "3.prems"(2)] "3.prems"(3) obtain s' where
    rest: "cycle_visit_deps g ds path s1 = Inr s'" and
    ext2: "cycles_extend g s1 s'"
    by auto
  from first rest cycles_extend_trans [OF ext1 ext2] show ?case
    by simp
qed

lemma edges_alist:
  "distinct (map fst g) \<Longrightarrow> edges g = (\<Union>(a, ds) \<in> set g. {a} \<times> set ds)"
  by (auto simp: edges_def deps_def split: option.splits dest: map_of_SomeD)

lemma is_cycle_not_acyclic:
  assumes "is_cycle g c"
  shows "\<not> acyclic (edges g)"
proof -
  from assms have len: "2 \<le> length c" and ends: "hd c = last c" and p: "dep_path g c"
    by (simp_all add: is_cycle_def)
  from len obtain x rest where "c = x # rest" "rest \<noteq> []"
    by (cases c) force+
  then obtain xs y where c: "c = x # xs @ [y]"
    by (cases rest rule: rev_cases) auto
  with ends have "x = y" by simp
  with dep_path_trancl [of g x xs y] p c have "(x, x) \<in> (edges g)\<^sup>+"
    by simp
  then show ?thesis by (auto simp: acyclic_def)
qed

lemma detect_cycles_sound:
  "\<exists>cs. detect_cycles g = Inr cs \<and> (\<forall>c \<in> set cs. is_cycle g c)"
proof -
  have "on_stack [] ([], {}, {})" by (simp add: on_stack_def)
  moreover have "dep_path g []" by (simp add: dep_path_def)
  ultimately obtain s' where
    run: "cycle_visit_deps g (map fst g) [] ([], {}, {}) = Inr s'" and
    ext: "cycles_extend g ([], {}, {}) s'"
    using cycle_visit_sound(2) [of "[]" "([], {}, {})" g "map fst g"] by auto
  obtain cycles visited rec_stack where s': "s' = (cycles, visited, rec_stack)"
    by (cases s') auto
  from ext s' have "\<forall>c \<in> set cycles. is_cycle g c"
    by (auto simp: cycles_extend_def)
  with run s' show ?thesis
    by (simp add: detect_cycles_def)
qed

text \<open>
  \<open>before xs b a\<close>: \<open>b\<close> stands at a smaller index of \<open>xs\<close> than \<open>a\<close>. The invariant of the
  build-order traversal: a call appends a list \<open>new\<close> of nodes that were not visited, all
  reachable from the nodes the call was started on, and every dependency \<open>y\<close> of a new node
  \<open>x\<close> was visited before the call, or stands before \<open>x\<close> in \<open>new\<close>, or reaches \<open>x\<close> (the
  edge lies on a cycle).
\<close>

definition before :: "'a list \<Rightarrow> 'a \<Rightarrow> 'a \<Rightarrow> bool" where
  "before xs b a = (\<exists>i j. i < j \<and> j < length xs \<and> xs ! i = b \<and> xs ! j = a)"

lemma before_append_left: "before xs b a \<Longrightarrow> before (xs @ ys) b a"
  unfolding before_def
  by (metis (no_types, lifting) length_append nth_append order_less_trans trans_less_add1)

lemma before_append_right: "before ys b a \<Longrightarrow> before (xs @ ys) b a"
proof -
  assume "before ys b a"
  then obtain i j where ij: "i < j" "j < length ys" "ys ! i = b" "ys ! j = a"
    by (auto simp: before_def)
  then have "length xs + i < length xs + j" "length xs + j < length (xs @ ys)"
    "(xs @ ys) ! (length xs + i) = b" "(xs @ ys) ! (length xs + j) = a"
    by simp_all
  then show ?thesis unfolding before_def by blast
qed

lemma before_append_across: "b \<in> set xs \<Longrightarrow> a \<in> set ys \<Longrightarrow> before (xs @ ys) b a"
proof -
  assume "b \<in> set xs" "a \<in> set ys"
  then obtain i j where "i < length xs" "xs ! i = b" "j < length ys" "ys ! j = a"
    by (auto simp: in_set_conv_nth)
  then have "i < length xs + j" "length xs + j < length (xs @ ys)"
    "(xs @ ys) ! i = b" "(xs @ ys) ! (length xs + j) = a"
    by (simp_all add: nth_append)
  then show ?thesis unfolding before_def by blast
qed

definition order_extends ::
  "graph \<Rightarrow> node set \<Rightarrow> node set \<times> node list \<Rightarrow> node set \<times> node list \<Rightarrow> bool" where
  "order_extends g roots s s' =
     (\<exists>new. snd s' = snd s @ new \<and> fst s' = fst s \<union> set new \<and> set new \<inter> fst s = {}
        \<and> distinct new \<and> roots \<subseteq> fst s'
        \<and> (\<forall>x \<in> set new. \<exists>r \<in> roots. (r, x) \<in> (edges g)\<^sup>*)
        \<and> (\<forall>x \<in> set new. \<forall>y \<in> set (deps g x).
              y \<in> fst s \<or> before new y x \<or> (y, x) \<in> (edges g)\<^sup>*))"

lemma order_extends_finish:
  assumes "n \<notin> visited"
    and "order_extends g (set (deps g n)) (insert n visited, result) (visited', result')"
  shows "order_extends g {n} (visited, result) (visited', result' @ [n])"
proof -
  from assms(2) obtain new where new:
    "result' = result @ new" "visited' = insert n visited \<union> set new"
    "set new \<inter> insert n visited = {}" "distinct new" "set (deps g n) \<subseteq> visited'"
    "\<forall>x \<in> set new. \<exists>r \<in> set (deps g n). (r, x) \<in> (edges g)\<^sup>*"
    "\<forall>x \<in> set new. \<forall>y \<in> set (deps g x).
        y \<in> insert n visited \<or> before new y x \<or> (y, x) \<in> (edges g)\<^sup>*"
    unfolding order_extends_def by auto
  have reach: "(n, x) \<in> (edges g)\<^sup>*" if "x \<in> set new" for x
  proof -
    from new(6) that obtain r where "r \<in> set (deps g n)" "(r, x) \<in> (edges g)\<^sup>*"
      by blast
    then show ?thesis
      by (auto simp: edges_def intro: converse_rtrancl_into_rtrancl)
  qed
  have ord_new: "y \<in> visited \<or> before (new @ [n]) y x \<or> (y, x) \<in> (edges g)\<^sup>*"
    if "x \<in> set new" "y \<in> set (deps g x)" for x y
  proof -
    from new(7) that have "y = n \<or> y \<in> visited \<or> before new y x \<or> (y, x) \<in> (edges g)\<^sup>*"
      by blast
    with reach [OF that(1)] show ?thesis
      by (auto intro: before_append_left)
  qed
  have ord_n: "y \<in> visited \<or> before (new @ [n]) y n \<or> (y, n) \<in> (edges g)\<^sup>*"
    if "y \<in> set (deps g n)" for y
  proof -
    from that new(5,2) have "y = n \<or> y \<in> visited \<or> y \<in> set new" by auto
    then show ?thesis
      by (auto intro: before_append_across)
  qed
  show ?thesis
    unfolding order_extends_def
  proof (intro exI [of _ "new @ [n]"] conjI ballI)
    show "snd (visited', result' @ [n]) = snd (visited, result) @ new @ [n]"
      using new(1) by simp
    show "fst (visited', result' @ [n]) = fst (visited, result) \<union> set (new @ [n])"
      using new(2) by auto
    show "set (new @ [n]) \<inter> fst (visited, result) = {}"
      using new(3) assms(1) by auto
    show "distinct (new @ [n])"
      using new(3,4) by auto
    show "{n} \<subseteq> fst (visited', result' @ [n])"
      using new(2) by simp
  next
    fix x assume "x \<in> set (new @ [n])"
    then show "\<exists>r \<in> {n}. (r, x) \<in> (edges g)\<^sup>*"
      using reach by auto
  next
    fix x y assume "x \<in> set (new @ [n])" "y \<in> set (deps g x)"
    then show "y \<in> fst (visited, result) \<or> before (new @ [n]) y x \<or> (y, x) \<in> (edges g)\<^sup>*"
      using ord_new ord_n by auto
  qed
qed

lemma order_extends_seq:
  assumes "order_extends g {d} s s1" and "order_extends g (set ds) s1 s2"
  shows "order_extends g (set (d # ds)) s s2"
proof -
  from assms(1) obtain new1 where new1:
    "snd s1 = snd s @ new1" "fst s1 = fst s \<union> set new1" "set new1 \<inter> fst s = {}"
    "distinct new1" "d \<in> fst s1"
    "\<forall>x \<in> set new1. (d, x) \<in> (edges g)\<^sup>*"
    "\<forall>x \<in> set new1. \<forall>y \<in> set (deps g x).
        y \<in> fst s \<or> before new1 y x \<or> (y, x) \<in> (edges g)\<^sup>*"
    unfolding order_extends_def by auto
  from assms(2) obtain new2 where new2:
    "snd s2 = snd s1 @ new2" "fst s2 = fst s1 \<union> set new2" "set new2 \<inter> fst s1 = {}"
    "distinct new2" "set ds \<subseteq> fst s2"
    "\<forall>x \<in> set new2. \<exists>r \<in> set ds. (r, x) \<in> (edges g)\<^sup>*"
    "\<forall>x \<in> set new2. \<forall>y \<in> set (deps g x).
        y \<in> fst s1 \<or> before new2 y x \<or> (y, x) \<in> (edges g)\<^sup>*"
    unfolding order_extends_def by auto
  show ?thesis
    unfolding order_extends_def
  proof (intro exI [of _ "new1 @ new2"] conjI ballI)
    show "snd s2 = snd s @ new1 @ new2"
      using new1(1) new2(1) by simp
    show "fst s2 = fst s \<union> set (new1 @ new2)"
      using new1(2) new2(2) by auto
    show "set (new1 @ new2) \<inter> fst s = {}"
      using new1(2,3) new2(3) by auto
    show "distinct (new1 @ new2)"
      using new1(2,4) new2(3,4) by auto
    show "set (d # ds) \<subseteq> fst s2"
      using new1(5) new2(2,5) by auto
  next
    fix x assume "x \<in> set (new1 @ new2)"
    then show "\<exists>r \<in> set (d # ds). (r, x) \<in> (edges g)\<^sup>*"
      using new1(6) new2(6) by auto
  next
    fix x y assume x: "x \<in> set (new1 @ new2)" and y: "y \<in> set (deps g x)"
    show "y \<in> fst s \<or> before (new1 @ new2) y x \<or> (y, x) \<in> (edges g)\<^sup>*"
    proof (cases "x \<in> set new1")
      case True
      with new1(7) y show ?thesis
        by (auto intro: before_append_left)
    next
      case False
      with x have x2: "x \<in> set new2" by simp
      with new2(7) y have "y \<in> fst s1 \<or> before new2 y x \<or> (y, x) \<in> (edges g)\<^sup>*"
        by blast
      with new1(2) x2 show ?thesis
        by (auto intro: before_append_right before_append_across)
    qed
  qed
qed

lemma order_extends_refl: "roots \<subseteq> fst s \<Longrightarrow> order_extends g roots s s"
  by (simp add: order_extends_def)

lemma order_visit_extends:
  "order_extends g {n} s (order_visit g n s)"
  "order_extends g (set ds) s (order_visit_deps g ds s)"
proof (induction g n s and g ds s rule: order_visit_order_visit_deps.induct)
  case (1 g n visited result)
  show ?case
  proof (cases "n \<in> visited")
    case True
    then show ?thesis by (simp add: order_extends_refl)
  next
    case False
    obtain visited' result' where
      r: "order_visit_deps g (deps g n) (insert n visited, result) = (visited', result')"
      by (cases "order_visit_deps g (deps g n) (insert n visited, result)") auto
    with "1.IH" [OF False] order_extends_finish [OF False, of g result visited' result']
    show ?thesis using False by simp
  qed
next
  case (2 g s)
  then show ?case by (simp add: order_extends_refl)
next
  case (3 g d ds s)
  then show ?case
    using order_extends_seq by simp
qed

lemma get_build_order_edges:
  assumes "(a, b) \<in> edges g"
  shows "before (get_build_order g) b a \<or> (b, a) \<in> (edges g)\<^sup>*"
    and "distinct (get_build_order g)"
proof -
  from order_visit_extends(2) [of g "map fst g" "({}, [])"]
  have ext: "order_extends g (set (map fst g)) ({}, []) (order_visit_deps g (map fst g) ({}, []))" .
  then have res: "fst (order_visit_deps g (map fst g) ({}, [])) = set (get_build_order g)"
    "distinct (get_build_order g)" "set (map fst g) \<subseteq> set (get_build_order g)"
    "\<forall>x \<in> set (get_build_order g). \<forall>y \<in> set (deps g x).
        before (get_build_order g) y x \<or> (y, x) \<in> (edges g)\<^sup>*"
    unfolding order_extends_def get_build_order_def by auto
  from assms have b: "b \<in> set (deps g a)"
    by (simp add: edges_def)
  then have "map_of g a \<noteq> None"
    by (cases "map_of g a") (simp_all add: deps_def)
  then have "a \<in> set (map fst g)"
    by (simp add: map_of_eq_None_iff)
  with res(3,4) b show "before (get_build_order g) b a \<or> (b, a) \<in> (edges g)\<^sup>*"
    by blast
  from res(2) show "distinct (get_build_order g)" .
qed

text \<open>
  Completeness of the cycle traversal. A node is finished when it is visited and no longer
  on the recursion stack. \<open>good\<close> is the invariant of the traversal: the stack is part of
  the visited set, every dependency of a finished node is visited, and every cycle that
  runs through finished nodes only has a node of its strongly connected component on a
  recorded cycle.
\<close>

definition finished :: "cycle_state \<Rightarrow> node set" where
  "finished s = fst (snd s) - snd (snd s)"

definition covered :: "node list list \<Rightarrow> node \<Rightarrow> bool" where
  "covered cycles y = (\<exists>c \<in> set cycles. y \<in> set c)"

definition same_component :: "graph \<Rightarrow> node \<Rightarrow> node \<Rightarrow> bool" where
  "same_component g x y = ((x, y) \<in> (edges g)\<^sup>* \<and> (y, x) \<in> (edges g)\<^sup>*)"

definition edges_on :: "graph \<Rightarrow> node set \<Rightarrow> (node \<times> node) set" where
  "edges_on g A = edges g \<inter> A \<times> A"

definition good :: "graph \<Rightarrow> cycle_state \<Rightarrow> bool" where
  "good g s =
     (snd (snd s) \<subseteq> fst (snd s)
      \<and> (\<forall>x \<in> finished s. set (deps g x) \<subseteq> fst (snd s))
      \<and> (\<forall>x. (x, x) \<in> (edges_on g (finished s))\<^sup>+ \<longrightarrow> (\<exists>y. covered (fst s) y \<and> same_component g x y)))"

lemma edges_on_insert_split:
  assumes "(a, b) \<in> (edges_on g (insert n A))\<^sup>+"
  shows "(a, b) \<in> (edges_on g A)\<^sup>+
     \<or> ((a, n) \<in> (edges_on g (insert n A))\<^sup>* \<and> (n, b) \<in> (edges_on g (insert n A))\<^sup>*)"
  using assms
proof (induction rule: trancl_induct)
  case (base b)
  then show ?case
    by (cases "a = n"; cases "b = n") (auto simp: edges_on_def)
next
  case (step b c)
  from step.hyps(2) have bc: "(b, c) \<in> edges g" "b \<in> insert n A" "c \<in> insert n A"
    by (auto simp: edges_on_def)
  from step.IH show ?case
  proof
    assume left: "(a, b) \<in> (edges_on g A)\<^sup>+"
    show ?thesis
    proof (cases "c = n")
      case True
      with step.hyps have "(a, n) \<in> (edges_on g (insert n A))\<^sup>*"
        by (auto intro: trancl_into_rtrancl trancl_into_trancl)
      with True show ?thesis by auto
    next
      case False
      from left have "b \<in> A"
        by (induction rule: trancl_induct) (auto simp: edges_on_def)
      with bc False have "(b, c) \<in> edges_on g A"
        by (auto simp: edges_on_def)
      with left show ?thesis
        by (auto intro: trancl_into_trancl)
    qed
  next
    assume "(a, n) \<in> (edges_on g (insert n A))\<^sup>* \<and> (n, b) \<in> (edges_on g (insert n A))\<^sup>*"
    with step.hyps(2) show ?thesis
      by (auto intro: rtrancl_into_rtrancl)
  qed
qed

lemma edges_on_subset: "(a, b) \<in> (edges_on g A)\<^sup>* \<Longrightarrow> (a, b) \<in> (edges g)\<^sup>*"
proof -
  have "edges_on g A \<subseteq> edges g" by (auto simp: edges_on_def)
  then show "(a, b) \<in> (edges_on g A)\<^sup>* \<Longrightarrow> (a, b) \<in> (edges g)\<^sup>*"
    using rtrancl_mono by blast
qed

lemma cycle_through_new_node:
  assumes "(x, x) \<in> (edges_on g (insert n A))\<^sup>+" and "(x, x) \<notin> (edges_on g A)\<^sup>+"
  shows "same_component g x n \<and> (\<exists>z \<in> insert n A. n \<in> set (deps g z))"
proof -
  from edges_on_insert_split [OF assms(1)] assms(2) have
    xn: "(x, n) \<in> (edges_on g (insert n A))\<^sup>*" and nx: "(n, x) \<in> (edges_on g (insert n A))\<^sup>*"
    by auto
  from nx assms(1) have "(n, x) \<in> (edges_on g (insert n A))\<^sup>+"
    by (auto dest: rtranclD)
  from this xn have "(n, n) \<in> (edges_on g (insert n A))\<^sup>+"
    by (rule trancl_rtrancl_trancl)
  then obtain z where "(z, n) \<in> edges_on g (insert n A)"
    by (auto dest: tranclD2)
  then have "z \<in> insert n A" "n \<in> set (deps g z)"
    by (auto simp: edges_on_def edges_def)
  with xn nx show ?thesis
    by (auto simp: same_component_def intro: edges_on_subset)
qed

lemma cycle_visit_extendsD:
  "on_stack path s \<Longrightarrow> dep_path g (path @ [n]) \<Longrightarrow>
     cycle_visit g n path s = Inr (found, s') \<Longrightarrow> cycles_extend g s s'"
  using cycle_visit_sound(1) [of path s g n] by auto

lemma cycle_visit_deps_extendsD:
  "on_stack path s \<Longrightarrow> dep_path g path \<Longrightarrow>
     (path \<noteq> [] \<longrightarrow> set ds \<subseteq> set (deps g (last path))) \<Longrightarrow>
     cycle_visit_deps g ds path s = Inr s' \<Longrightarrow> cycles_extend g s s'"
  using cycle_visit_sound(2) [of path s g ds] by auto

lemma covered_mono: "cycles_extend g s s' \<Longrightarrow> covered (fst s) y \<Longrightarrow> covered (fst s') y"
  by (auto simp: cycles_extend_def covered_def)

lemma good_record:
  assumes "good g (cycles, visited, rec_stack)"
  shows "good g (cycles @ [c], visited, rec_stack)"
  using assms unfolding good_def finished_def covered_def
  by (simp; blast)

lemma good_enter:
  assumes "good g (cycles, visited, rec_stack)" "n \<notin> visited"
  shows "good g (cycles, insert n visited, insert n rec_stack)"
proof -
  from assms(2) have "insert n visited - insert n rec_stack = visited - rec_stack"
    by auto
  with assms(1) show ?thesis
    unfolding good_def finished_def by (simp; blast)
qed

lemma good_finish:
  assumes entry: "good g (cycles, visited, rec_stack)" and fresh: "n \<notin> visited"
    and inner: "good g (cycles', visited', insert n rec_stack)"
    and grow: "visited \<subseteq> visited'"
    and own: "\<forall>d \<in> set (deps g n). d \<in> visited' \<and> (d \<in> insert n rec_stack \<longrightarrow> covered cycles' d)"
    and new: "\<forall>z \<in> visited' - insert n visited. \<forall>y \<in> set (deps g z).
                y \<in> insert n rec_stack \<longrightarrow> covered cycles' y"
  shows "good g (cycles', visited', rec_stack)"
proof -
  from entry fresh have off: "n \<notin> rec_stack"
    by (auto simp: good_def)
  from inner have on: "n \<in> visited'" and sub: "rec_stack \<subseteq> visited'"
    by (auto simp: good_def)
  define A where "A = visited' - insert n rec_stack"
  have fin: "visited' - rec_stack = insert n A"
    using on off by (auto simp: A_def)
  have closed: "set (deps g x) \<subseteq> visited'" if "x \<in> insert n A" for x
  proof (cases "x = n")
    case True
    with own show ?thesis by auto
  next
    case False
    with that have "x \<in> finished (cycles', visited', insert n rec_stack)"
      by (simp add: finished_def A_def)
    with inner show ?thesis by (auto simp: good_def)
  qed
  have rep: "\<exists>y. covered cycles' y \<and> same_component g x y"
    if cyc: "(x, x) \<in> (edges_on g (insert n A))\<^sup>+" for x
  proof (cases "(x, x) \<in> (edges_on g A)\<^sup>+")
    case True
    with inner show ?thesis
      by (simp add: good_def finished_def A_def)
  next
    case False
    from cycle_through_new_node [OF cyc False] obtain z where
      comp: "same_component g x n" and z: "z \<in> insert n A" "n \<in> set (deps g z)"
      by blast
    have "covered cycles' n"
    proof (cases "z = n")
      case True
      with z(2) own show ?thesis by auto
    next
      case False
      with z(1) have zA: "z \<in> visited'" "z \<notin> rec_stack"
        by (auto simp: A_def)
      have "z \<notin> visited"
      proof
        assume "z \<in> visited"
        with zA(2) have "z \<in> finished (cycles, visited, rec_stack)"
          by (simp add: finished_def)
        with entry z(2) have "n \<in> visited"
          by (auto simp: good_def)
        with fresh show False by simp
      qed
      with zA(1) False have "z \<in> visited' - insert n visited" by simp
      with new z(2) show ?thesis by blast
    qed
    with comp show ?thesis by blast
  qed
  from sub closed rep show ?thesis
    unfolding good_def finished_def by (simp add: fin)
qed

definition visit_post :: "graph \<Rightarrow> node \<Rightarrow> cycle_state \<Rightarrow> cycle_state \<Rightarrow> bool" where
  "visit_post g n s s' =
     (good g s' \<and> n \<in> fst (snd s') \<and> (n \<in> snd (snd s) \<longrightarrow> covered (fst s') n)
      \<and> (\<forall>z \<in> fst (snd s') - fst (snd s). \<forall>y \<in> set (deps g z).
            y \<in> insert n (snd (snd s)) \<longrightarrow> covered (fst s') y))"

definition deps_post :: "graph \<Rightarrow> node list \<Rightarrow> cycle_state \<Rightarrow> cycle_state \<Rightarrow> bool" where
  "deps_post g ds s s' =
     (good g s'
      \<and> (\<forall>d \<in> set ds. d \<in> fst (snd s') \<and> (d \<in> snd (snd s) \<longrightarrow> covered (fst s') d))
      \<and> (\<forall>z \<in> fst (snd s') - fst (snd s). \<forall>y \<in> set (deps g z).
            y \<in> snd (snd s) \<longrightarrow> covered (fst s') y))"

lemma visit_post_record:
  assumes "good g (cycles, visited, rec_stack)" "n \<in> rec_stack" "n \<in> set c"
  shows "visit_post g n (cycles, visited, rec_stack) (cycles @ [c], visited, rec_stack)"
proof -
  from assms(1,2) have "n \<in> visited" by (auto simp: good_def)
  moreover have "covered (cycles @ [c]) n"
    using assms(3) by (auto simp: covered_def)
  ultimately show ?thesis
    using good_record [OF assms(1), of c] by (simp add: visit_post_def)
qed

lemma visit_post_seen:
  assumes "good g (cycles, visited, rec_stack)" "n \<notin> rec_stack" "n \<in> visited"
  shows "visit_post g n (cycles, visited, rec_stack) (cycles, visited, rec_stack)"
  using assms by (simp add: visit_post_def)

lemma visit_post_finish:
  assumes entry: "good g (cycles, visited, rec_stack)" and fresh: "n \<notin> visited"
    and inner: "deps_post g (deps g n) (cycles, insert n visited, insert n rec_stack)
                  (cycles', visited', insert n rec_stack)"
    and grow: "insert n visited \<subseteq> visited'"
  shows "visit_post g n (cycles, visited, rec_stack) (cycles', visited', rec_stack)"
proof -
  from inner have
    g1: "good g (cycles', visited', insert n rec_stack)" and
    own: "\<forall>d \<in> set (deps g n). d \<in> visited' \<and> (d \<in> insert n rec_stack \<longrightarrow> covered cycles' d)" and
    new: "\<forall>z \<in> visited' - insert n visited. \<forall>y \<in> set (deps g z).
            y \<in> insert n rec_stack \<longrightarrow> covered cycles' y"
    by (simp_all add: deps_post_def)
  from grow have grow': "visited \<subseteq> visited'" by auto
  have "good g (cycles', visited', rec_stack)"
    by (rule good_finish [OF entry fresh g1 grow' own new])
  moreover from entry fresh have "n \<notin> rec_stack"
    by (auto simp: good_def)
  moreover have "\<forall>z \<in> visited' - visited. \<forall>y \<in> set (deps g z).
      y \<in> insert n rec_stack \<longrightarrow> covered cycles' y"
  proof (intro ballI impI)
    fix z y assume "z \<in> visited' - visited" "y \<in> set (deps g z)" "y \<in> insert n rec_stack"
    then show "covered cycles' y"
      using own new by (cases "z = n") auto
  qed
  ultimately show ?thesis
    using grow by (simp add: visit_post_def)
qed

lemma deps_post_nil: "good g s \<Longrightarrow> deps_post g [] s s"
  by (simp add: deps_post_def)

lemma deps_post_cons:
  assumes "visit_post g d s s1" "cycles_extend g s s1"
    and "deps_post g ds s1 s2" "cycles_extend g s1 s2"
  shows "deps_post g (d # ds) s s2"
proof -
  from assms(2,4) have same: "snd (snd s1) = snd (snd s)"
    and v: "fst (snd s) \<subseteq> fst (snd s1)" "fst (snd s1) \<subseteq> fst (snd s2)"
    by (auto simp: cycles_extend_def)
  note mono = covered_mono [OF assms(4)]
  have "d \<in> fst (snd s2) \<and> (d \<in> snd (snd s) \<longrightarrow> covered (fst s2) d)"
    using assms(1) v mono by (auto simp: visit_post_def)
  moreover have "\<forall>d' \<in> set ds. d' \<in> fst (snd s2) \<and> (d' \<in> snd (snd s) \<longrightarrow> covered (fst s2) d')"
    using assms(3) same by (simp add: deps_post_def)
  moreover have "\<forall>z \<in> fst (snd s2) - fst (snd s). \<forall>y \<in> set (deps g z).
      y \<in> snd (snd s) \<longrightarrow> covered (fst s2) y"
  proof (intro ballI impI)
    fix z y
    assume z: "z \<in> fst (snd s2) - fst (snd s)" and y: "y \<in> set (deps g z)" "y \<in> snd (snd s)"
    show "covered (fst s2) y"
    proof (cases "z \<in> fst (snd s1)")
      case True
      with z y assms(1) have "covered (fst s1) y"
        by (auto simp: visit_post_def)
      then show ?thesis by (rule mono)
    next
      case False
      with z y assms(3) same show ?thesis
        by (auto simp: deps_post_def)
    qed
  qed
  moreover from assms(3) have "good g s2"
    by (simp add: deps_post_def)
  ultimately show ?thesis
    by (simp add: deps_post_def)
qed

lemma cycle_visit_complete:
  "\<forall>found s'. good g s \<longrightarrow> on_stack path s \<longrightarrow> dep_path g (path @ [n]) \<longrightarrow>
     cycle_visit g n path s = Inr (found, s') \<longrightarrow> visit_post g n s s'"
  "\<forall>s'. good g s \<longrightarrow> on_stack path s \<longrightarrow> dep_path g path \<longrightarrow>
     (path \<noteq> [] \<longrightarrow> set ds \<subseteq> set (deps g (last path))) \<longrightarrow>
     cycle_visit_deps g ds path s = Inr s' \<longrightarrow> deps_post g ds s s'"
proof (induction g n path s and g ds path s rule: cycle_visit_cycle_visit_deps.induct)
  case (1 g n path cycles visited rec_stack)
  show ?case
  proof (intro allI impI)
    fix found s'
    assume good: "good g (cycles, visited, rec_stack)"
      and stack: "on_stack path (cycles, visited, rec_stack)"
      and path: "dep_path g (path @ [n])"
      and run: "cycle_visit g n path (cycles, visited, rec_stack) = Inr (found, s')"
    from stack have rs: "rec_stack = set path" and dist: "distinct path"
      by (simp_all add: on_stack_def)
    show "visit_post g n (cycles, visited, rec_stack) s'"
    proof (cases "n \<in> rec_stack")
      case True
      with rs recorded_cycle [OF _ dist path] obtain i where
        i: "list_index path n = Some i"
        by blast
      with True run have "s' = (cycles @ [drop i path @ [n]], visited, rec_stack)"
        by simp
      with good True show ?thesis
        by (simp add: visit_post_record)
    next
      case False
      note off = this
      show ?thesis
      proof (cases "n \<in> visited")
        case True
        with off run have "s' = (cycles, visited, rec_stack)" by simp
        with good off True show ?thesis
          by (simp add: visit_post_seen)
      next
        case False
        let ?s0 = "(cycles, insert n visited, insert n rec_stack)"
        have stack0: "on_stack (path @ [n]) ?s0"
          using rs dist off by (auto simp: on_stack_def)
        have good0: "good g ?s0"
          by (rule good_enter [OF good False])
        from cycle_visit_sound(2) [OF stack0 path, of "deps g n"] obtain s1 where
          run1: "cycle_visit_deps g (deps g n) (path @ [n]) ?s0 = Inr s1" and
          ext: "cycles_extend g ?s0 s1"
          by auto
        obtain cycles' visited' rec_stack' where s1: "s1 = (cycles', visited', rec_stack')"
          by (cases s1) auto
        from ext s1 have top: "rec_stack' = insert n rec_stack" and grow: "insert n visited \<subseteq> visited'"
          by (auto simp: cycles_extend_def)
        from "1.IH" [OF off False] good0 stack0 path run1
        have "deps_post g (deps g n) ?s0 s1"
          by simp
        with s1 top have "deps_post g (deps g n) ?s0 (cycles', visited', insert n rec_stack)"
          by simp
        from visit_post_finish [OF good False this grow]
        have post: "visit_post g n (cycles, visited, rec_stack) (cycles', visited', rec_stack)" .
        from run run1 s1 top off False have "s' = (cycles', visited', insert n rec_stack - {n})"
          by simp
        with off have "s' = (cycles', visited', rec_stack)" by simp
        with post show ?thesis by simp
      qed
    qed
  qed
next
  case (2 g path s)
  then show ?case by (simp add: deps_post_nil)
next
  case (3 g d ds path s)
  show ?case
  proof (intro allI impI)
    fix s'
    assume good: "good g s" and stack: "on_stack path s" and path: "dep_path g path"
      and last: "path \<noteq> [] \<longrightarrow> set (d # ds) \<subseteq> set (deps g (last path))"
      and run: "cycle_visit_deps g (d # ds) path s = Inr s'"
    from path last have pd: "dep_path g (path @ [d])"
      by (simp add: dep_path_snoc)
    from run obtain found s1 where
      first: "cycle_visit g d path s = Inr (found, s1)" and
      rest: "cycle_visit_deps g ds path s1 = Inr s'"
      by (auto split: sum.splits)
    from cycle_visit_extendsD [OF stack pd first] have ext1: "cycles_extend g s s1" .
    with stack have stack1: "on_stack path s1"
      by (auto simp: on_stack_def cycles_extend_def)
    from last have last': "path \<noteq> [] \<longrightarrow> set ds \<subseteq> set (deps g (last path))"
      by simp
    from cycle_visit_deps_extendsD [OF stack1 path last' rest] have ext2: "cycles_extend g s1 s'" .
    from "3.IH"(1) good stack pd first have post1: "visit_post g d s s1"
      by blast
    then have "good g s1" by (simp add: visit_post_def)
    with "3.IH"(2) [OF first refl] stack1 path last' rest have post2: "deps_post g ds s1 s'"
      by blast
    from deps_post_cons [OF post1 ext1 post2 ext2] show "deps_post g (d # ds) s s'" .
  qed
qed

lemma closed_trancl_edges_on:
  assumes "\<forall>x \<in> A. set (deps g x) \<subseteq> A" "x \<in> A" "(x, y) \<in> (edges g)\<^sup>+"
  shows "(x, y) \<in> (edges_on g A)\<^sup>+ \<and> y \<in> A"
  using assms(3)
proof (induction rule: trancl_induct)
  case (base y)
  with assms(1,2) have "y \<in> A" by (auto simp: edges_def)
  with base assms(2) show ?case by (auto simp: edges_on_def)
next
  case (step y z)
  with assms(1) have "z \<in> A" by (auto simp: edges_def)
  with step have "(y, z) \<in> edges_on g A" by (simp add: edges_on_def)
  with step.IH \<open>z \<in> A\<close> show ?case by (auto intro: trancl_into_trancl)
qed

lemma edge_source_is_key: "(x, y) \<in> edges g \<Longrightarrow> x \<in> set (map fst g)"
proof -
  assume "(x, y) \<in> edges g"
  then have "map_of g x \<noteq> None"
    by (cases "map_of g x") (simp_all add: edges_def deps_def)
  then show ?thesis by (simp add: map_of_eq_None_iff)
qed

lemma detect_cycles_complete:
  "\<exists>cs. detect_cycles g = Inr cs \<and> (\<forall>c \<in> set cs. is_cycle g c)
     \<and> (\<forall>x. (x, x) \<in> (edges g)\<^sup>+ \<longrightarrow> (\<exists>y. covered cs y \<and> same_component g x y))"
proof -
  let ?s0 = "([], {}, {}) :: cycle_state"
  have stack: "on_stack [] ?s0" by (simp add: on_stack_def)
  have path: "dep_path g []" by (simp add: dep_path_def)
  have good0: "good g ?s0"
    by (simp add: good_def finished_def edges_on_def)
  from cycle_visit_sound(2) [OF stack path, of "map fst g"] obtain s' where
    run: "cycle_visit_deps g (map fst g) [] ?s0 = Inr s'" and
    ext: "cycles_extend g ?s0 s'"
    by auto
  obtain cs visited rec_stack where s': "s' = (cs, visited, rec_stack)"
    by (cases s') auto
  from ext s' have sound: "\<forall>c \<in> set cs. is_cycle g c" and empty: "rec_stack = {}"
    by (auto simp: cycles_extend_def)
  from cycle_visit_complete(2) [of g ?s0 "[]" "map fst g"] good0 stack path run
  have post: "deps_post g (map fst g) ?s0 s'"
    by simp
  with s' empty have keys: "set (map fst g) \<subseteq> visited"
    and closed: "\<forall>x \<in> visited. set (deps g x) \<subseteq> visited"
    and rep: "\<forall>x. (x, x) \<in> (edges_on g visited)\<^sup>+ \<longrightarrow> (\<exists>y. covered cs y \<and> same_component g x y)"
    by (auto simp: deps_post_def good_def finished_def)
  have "\<exists>y. covered cs y \<and> same_component g x y" if "(x, x) \<in> (edges g)\<^sup>+" for x
  proof -
    from that obtain z where "(x, z) \<in> edges g"
      by (auto dest: tranclD)
    then have "x \<in> visited"
      using keys edge_source_is_key by blast
    from closed_trancl_edges_on [OF closed this that] rep show ?thesis
      by blast
  qed
  with run s' sound show ?thesis
    by (simp add: detect_cycles_def)
qed


text \<open>
  The bounded and the unbounded traversals, and a ring of \<open>n\<close> nodes, each depending on the
  next, on which the bounded ones run out of frames.
\<close>

lemma order_visit_mono:
  "fst s \<subseteq> fst (order_visit g n s)"
  "fst s \<subseteq> fst (order_visit_deps g ds s)"
  using order_visit_mono_dom order_visit_total by blast+



lemma cycle_visit_mono:
  "cycle_visit g n path s = Inr (found, s') \<Longrightarrow> fst (snd s) \<subseteq> fst (snd s')"
  "cycle_visit_deps g ds path s = Inr s' \<Longrightarrow> fst (snd s) \<subseteq> fst (snd s')"
  using cycle_visit_mono_dom cycle_visit_total by blast+
















section \<open>Claims about the resolver\<close>

text \<open>
  Claim C1. On an acyclic graph, for every edge (\<open>a\<close> depends on \<open>b\<close>) the node \<open>b\<close> stands
  before \<open>a\<close> in the list \<^verbatim>\<open>get_build_order\<close> returns, and no node is listed twice. Nothing
  is assumed about \<open>b\<close> being a key of the graph: a node without an entry has the empty
  dependency list and is still emitted.
\<close>

theorem build_order_topological:
  assumes "acyclic (edges g)" and "(a, b) \<in> edges g"
  shows "before (get_build_order g) b a \<and> distinct (get_build_order g)"
proof -
  have "(b, a) \<notin> (edges g)\<^sup>*"
  proof
    assume "(b, a) \<in> (edges g)\<^sup>*"
    with assms(2) have "(a, a) \<in> (edges g)\<^sup>+"
      by (rule rtrancl_into_trancl2)
    with assms(1) show False
      by (simp add: acyclic_def)
  qed
  with get_build_order_edges [OF assms(2)] show ?thesis
    by blast
qed

theorem build_order_topological_witness:
  "acyclic (edges [(''a'', [''b''])])
   \<and> (''a'', ''b'') \<in> edges [(''a'', [''b''])]
   \<and> ''b'' \<notin> set (map fst [(''a'', [''b''])])
   \<and> get_build_order [(''a'', [''b''])] = [''b'', ''a'']
   \<and> before (get_build_order [(''a'', [''b''])]) ''b'' ''a''"
proof -
  have "acyclic ({} :: (node \<times> node) set)"
    by (simp add: acyclic_def)
  then have a: "acyclic (edges [(''a'', [''b''])])"
    by (simp add: edges_alist acyclic_insert)
  have e: "(''a'', ''b'') \<in> edges [(''a'', [''b''])]"
    by (simp add: edges_alist)
  have r: "get_build_order [(''a'', [''b''])] = [''b'', ''a'']"
    by (simp add: get_build_order_def deps_def)
  from build_order_topological [OF a e] a e r show ?thesis
    by simp
qed

text \<open>
  Claim C5. For the graph \<^verbatim>\<open>{A: [B], B: [C], C: [A]}\<close>, \<^verbatim>\<open>detect_cycles\<close> returns the
  non-empty list holding the one cycle \<^verbatim>\<open>[A, B, C, A]\<close>, which covers A, B and C, and
  \<^verbatim>\<open>get_build_order\<close> returns \<^verbatim>\<open>[C, B, A]\<close>, a permutation of the three nodes, without
  an error.
\<close>

theorem cycle_reporting_abc:
  "detect_cycles [(''A'', [''B'']), (''B'', [''C'']), (''C'', [''A''])]
     = Inr [[''A'', ''B'', ''C'', ''A'']]
   \<and> set [''A'', ''B'', ''C'', ''A''] = {''A'', ''B'', ''C''}
   \<and> get_build_order [(''A'', [''B'']), (''B'', [''C'']), (''C'', [''A''])]
     = [''C'', ''B'', ''A'']
   \<and> mset [''C'', ''B'', ''A''] = mset [''A'', ''B'', ''C'']"
  by (simp add: detect_cycles_def get_build_order_def deps_def insert_commute)

text \<open>
  Claim C10. \<^verbatim>\<open>detect_cycles\<close> never raises, every entry of the list it returns is a
  genuine cycle of the graph (a path along dependency edges from a node back to itself),
  and on an acyclic graph the list is empty.
\<close>

theorem detect_cycles_no_false_positives:
  "\<exists>cs. detect_cycles g = Inr cs \<and> (\<forall>c \<in> set cs. is_cycle g c)
      \<and> (acyclic (edges g) \<longrightarrow> cs = [])"
proof -
  from detect_cycles_sound [of g] obtain cs where
    cs: "detect_cycles g = Inr cs" "\<forall>c \<in> set cs. is_cycle g c"
    by blast
  have "cs = []" if "acyclic (edges g)"
  proof (cases cs)
    case Nil
    then show ?thesis .
  next
    case (Cons c rest)
    with cs(2) have "is_cycle g c" by simp
    with that show ?thesis by (simp add: is_cycle_not_acyclic)
  qed
  with cs show ?thesis by blast
qed

theorem detect_cycles_no_false_positives_witness:
  "acyclic (edges [(''a'', [''b''])])
   \<and> detect_cycles [(''a'', [''b''])] = Inr []
   \<and> detect_cycles [(''A'', [''B'']), (''B'', [''C'']), (''C'', [''A''])]
       = Inr [[''A'', ''B'', ''C'', ''A'']]
   \<and> is_cycle [(''A'', [''B'']), (''B'', [''C'']), (''C'', [''A''])] [''A'', ''B'', ''C'', ''A'']"
proof -
  have "acyclic ({} :: (node \<times> node) set)"
    by (simp add: acyclic_def)
  then have a: "acyclic (edges [(''a'', [''b''])])"
    by (simp add: edges_alist acyclic_insert)
  from detect_cycles_no_false_positives [of "[(''a'', [''b''])]"] a
  have b: "detect_cycles [(''a'', [''b''])] = Inr []"
    by auto
  have c: "detect_cycles [(''A'', [''B'']), (''B'', [''C'']), (''C'', [''A''])]
       = Inr [[''A'', ''B'', ''C'', ''A'']]"
    by (simp add: detect_cycles_def deps_def)
  with detect_cycles_no_false_positives [of "[(''A'', [''B'']), (''B'', [''C'']), (''C'', [''A''])]"]
  have d: "is_cycle [(''A'', [''B'']), (''B'', [''C'']), (''C'', [''A''])] [''A'', ''B'', ''C'', ''A'']"
    by auto
  from a b c d show ?thesis by blast
qed




text \<open>
  Claim C6 does not hold as stated: a node that is fully visited is not explored again, so
  a second cycle through it is not recorded. In \<^verbatim>\<open>{A: [B, C], B: [C], C: [A]}\<close> the cycle
  \<^verbatim>\<open>A -> C -> A\<close> is a cycle of the graph and the list returned holds \<^verbatim>\<open>[A, B, C, A]\<close>
  only.
\<close>

theorem detect_cycles_misses_cycle:
  "detect_cycles [(''A'', [''B'', ''C'']), (''B'', [''C'']), (''C'', [''A''])]
     = Inr [[''A'', ''B'', ''C'', ''A'']]
   \<and> is_cycle [(''A'', [''B'', ''C'']), (''B'', [''C'']), (''C'', [''A''])] [''A'', ''C'', ''A'']
   \<and> [''A'', ''C'', ''A''] \<notin> set [[''A'', ''B'', ''C'', ''A'']]
   \<and> [''C'', ''A'', ''C''] \<notin> set [[''A'', ''B'', ''C'', ''A'']]"
  by (simp add: detect_cycles_def deps_def is_cycle_def dep_path_def)

text \<open>
  Claim C6, amended. \<^verbatim>\<open>detect_cycles\<close> does not stop at the first cycle: the traversal
  goes on, every entry of the returned list is a cycle of the graph recorded as the path
  from the repeated node's first occurrence back to itself, and for every node that lies on
  a cycle the list holds a cycle through a node of the same strongly connected component
  (so each cyclic component is reported at least once, though not every distinct cycle).
\<close>

theorem detect_cycles_every_component:
  "\<exists>cs. detect_cycles g = Inr cs \<and> (\<forall>c \<in> set cs. is_cycle g c)
     \<and> (\<forall>x. (x, x) \<in> (edges g)\<^sup>+ \<longrightarrow> (\<exists>c \<in> set cs. \<exists>y \<in> set c. same_component g x y))"
  using detect_cycles_complete [of g] unfolding covered_def by blast

theorem detect_cycles_every_component_witness:
  "detect_cycles [(''A'', [''A'']), (''B'', [''B''])] = Inr [[''A'', ''A''], [''B'', ''B'']]
   \<and> (''B'', ''B'') \<in> (edges [(''A'', [''A'']), (''B'', [''B''])])\<^sup>+
   \<and> is_cycle [(''A'', [''A'']), (''B'', [''B''])] [''B'', ''B'']
   \<and> (\<exists>c \<in> set [[''A'', ''A''], [''B'', ''B'']]. \<exists>y \<in> set c.
         same_component [(''A'', [''A'']), (''B'', [''B''])] ''B'' y)"
proof -
  let ?g = "[(''A'', [''A'']), (''B'', [''B''])]"
  have run: "detect_cycles ?g = Inr [[''A'', ''A''], [''B'', ''B'']]"
    by (simp add: detect_cycles_def deps_def)
  have "(''B'', ''B'') \<in> edges ?g"
    by (simp add: edges_alist)
  then have loop: "(''B'', ''B'') \<in> (edges ?g)\<^sup>+"
    by (rule r_into_trancl)
  from detect_cycles_every_component [of ?g] run loop show ?thesis
    by auto
qed

section \<open>Cache store (\<^verbatim>\<open>thalos_utils.SmartCache\<close>)\<close>

text \<open>
  Python values as far as the cache handles them. A float is a finite number (\<open>PFloat\<close>),
  an infinity (\<open>PInf True\<close> is \<^verbatim>\<open>inf\<close>, \<open>PInf False\<close> is \<^verbatim>\<open>-inf\<close>) or \<^verbatim>\<open>nan\<close> (\<open>PNaN\<close>). A
  dictionary is the list of its items in insertion order and has string keys; \<open>PObject\<close>
  stands for a value \<^verbatim>\<open>json.dumps\<close> has no encoding for (a set, bytes, an instance of a
  class).

  \<^verbatim>\<open>json.dumps(value, indent=2)\<close> walks the value in order and raises at the first thing it
  cannot write: \<^verbatim>\<open>TypeError\<close> at such an object, \<^verbatim>\<open>ValueError\<close> at an integer of more than
  4300 digits (the interpreter's limit on converting an integer to a string), and
  \<^verbatim>\<open>RecursionError\<close> when a list, tuple or dictionary is nested deeper than the interpreter
  still allows: with \<^verbatim>\<open>indent\<close> given the encoder runs in Python and enters one frame for
  each level of nesting, and \<open>frames\<close> is the number of levels it may still enter (the
  same number is taken for the value and for the index). A tuple is written as an array,
  so that \<^verbatim>\<open>json.loads(json.dumps(v))\<close> is \<open>json_norm v\<close>; \<^verbatim>\<open>inf\<close> and \<^verbatim>\<open>nan\<close> are written
  as \<^verbatim>\<open>Infinity\<close> and \<^verbatim>\<open>NaN\<close> and read back as such.
\<close>

datatype pyval =
    PNone
  | PBool bool
  | PInt int
  | PFloat real
  | PInf bool
  | PNaN
  | PStr string
  | PList "pyval list"
  | PTuple "pyval list"
  | PDict "(string \<times> pyval) list"
  | PObject string

definition max_str_digits :: nat where
  "max_str_digits = 4300"

definition int_too_long :: "int \<Rightarrow> bool" where
  "int_too_long i = (10 ^ max_str_digits \<le> \<bar>i\<bar>)"

fun first_error :: "py_error option list \<Rightarrow> py_error option" where
  "first_error [] = None"
| "first_error (None # es) = first_error es"
| "first_error (Some e # es) = Some e"

fun encode_error :: "nat \<Rightarrow> pyval \<Rightarrow> py_error option" where
  "encode_error frames (PObject name) = Some TypeError"
| "encode_error frames (PInt i) = (if int_too_long i then Some ValueError else None)"
| "encode_error frames (PList xs) =
     (if frames = 0 then Some RecursionError
      else first_error (map (encode_error (frames - 1)) xs))"
| "encode_error frames (PTuple xs) =
     (if frames = 0 then Some RecursionError
      else first_error (map (encode_error (frames - 1)) xs))"
| "encode_error frames (PDict kvs) =
     (if frames = 0 then Some RecursionError
      else first_error (map (\<lambda>kv. encode_error (frames - 1) (snd kv)) kvs))"
| "encode_error frames v = None"

fun json_norm :: "pyval \<Rightarrow> pyval" where
  "json_norm (PList xs) = PList (map json_norm xs)"
| "json_norm (PTuple xs) = PList (map json_norm xs)"
| "json_norm (PDict kvs) = PDict (map (\<lambda>(k, v). (k, json_norm v)) kvs)"
| "json_norm v = v"

text \<open>
  What reading a file gives: \<open>Unreadable\<close> when \<^verbatim>\<open>read_text\<close> raises, \<open>Malformed\<close> when
  \<^verbatim>\<open>json.loads\<close> raises on the text, \<open>Json v\<close> when \<^verbatim>\<open>json.loads\<close> returns \<open>v\<close>. The text
  itself is not modelled: \<open>json_dumps\<close> gives the content a later \<^verbatim>\<open>json.loads\<close> will
  find.
\<close>

datatype file_content = Unreadable | Malformed | Json pyval

definition json_dumps :: "nat \<Rightarrow> pyval \<Rightarrow> py_error + file_content" where
  "json_dumps frames v =
     (case encode_error frames v of Some e \<Rightarrow> Inl e | None \<Rightarrow> Inr (Json (json_norm v)))"

text \<open>
  Paths as \<^verbatim>\<open>pathlib\<close> has them on POSIX. A path is an anchor (empty for a relative path,
  \<^verbatim>\<open>/\<close>, or \<^verbatim>\<open>//\<close> for a string that starts with exactly two slashes) and its parts: the
  string split at the slashes, without the empty parts and the \<^verbatim>\<open>.\<close> parts; \<^verbatim>\<open>..\<close> is kept.
  \<^verbatim>\<open>p / s\<close> appends the parts of \<open>s\<close>, and is \<open>s\<close> alone when \<open>s\<close> is absolute. So
  \<^verbatim>\<open>cache_dir / f"{key}.cache"\<close> is the same path for the keys \<^verbatim>\<open>k\<close>, \<^verbatim>\<open>./k\<close> and \<^verbatim>\<open>.//k\<close>,
  lies in a subdirectory for \<^verbatim>\<open>a/b\<close>, and outside the cache directory for \<^verbatim>\<open>../k\<close> and \<^verbatim>\<open>/k\<close>.
\<close>

primrec split_slash :: "string \<Rightarrow> string list" where
  "split_slash [] = [[]]"
| "split_slash (c # cs) =
     (if c = CHR ''/'' then [] # split_slash cs
      else (c # hd (split_slash cs)) # tl (split_slash cs))"

definition path_parts :: "string \<Rightarrow> string list" where
  "path_parts s = filter (\<lambda>c. c \<noteq> [] \<and> c \<noteq> ''.'') (split_slash s)"

definition anchor_of :: "string \<Rightarrow> string" where
  "anchor_of s =
     (if take 2 s = ''//'' \<and> (length s = 2 \<or> s ! 2 \<noteq> CHR ''/'') then ''//''
      else if take 1 s = ''/'' then ''/''
      else [])"

datatype pure_path = PurePath (anchor: string) (parts: "string list")

definition Path :: "string \<Rightarrow> pure_path" where
  "Path s = PurePath (anchor_of s) (path_parts s)"

definition joinpath :: "pure_path \<Rightarrow> string \<Rightarrow> pure_path" where
  "joinpath p s =
     (if anchor_of s \<noteq> [] then Path s
      else PurePath (anchor p) (parts p @ path_parts s))"

fun slash_join :: "string list \<Rightarrow> string" where
  "slash_join [] = []"
| "slash_join [c] = c"
| "slash_join (c # cs) = c @ CHR ''/'' # slash_join cs"

definition path_str :: "pure_path \<Rightarrow> string" where
  "path_str p =
     (if anchor p = [] \<and> parts p = [] then ''.'' else anchor p @ slash_join (parts p))"

text \<open>
  The file system maps a location, the list of names from the root, to a directory or a
  file; the root is a directory. A path is resolved from the root or, when relative, from
  the working directory \<open>cwd\<close>, one part after the other: each part is looked up in a
  directory, \<^verbatim>\<open>..\<close> is the parent. \<^verbatim>\<open>exists\<close> is false, \<^verbatim>\<open>read_text\<close> raises and \<^verbatim>\<open>write_text\<close>
  and \<^verbatim>\<open>unlink\<close> raise \<^verbatim>\<open>OSError\<close> (\<^verbatim>\<open>FileNotFoundError\<close>, \<^verbatim>\<open>NotADirectoryError\<close>,
  \<^verbatim>\<open>IsADirectoryError\<close>) when the path does not resolve or is not a file; \<^verbatim>\<open>write_text\<close>
  creates the file but no directory. A path with a NUL character does not exist and raises
  \<^verbatim>\<open>ValueError\<close> when opened. Names differ when their characters differ. Links,
  permissions, limits on the length of a name and faults of the disk are outside the model.
\<close>

type_synonym location = "string list"

datatype fs_entry = DirEntry | FileEntry file_content

type_synonym filesystem = "location \<rightharpoonup> fs_entry"

definition is_dir :: "filesystem \<Rightarrow> location \<Rightarrow> bool" where
  "is_dir fs l = (l = [] \<or> fs l = Some DirEntry)"

fun walk_path :: "filesystem \<Rightarrow> location \<Rightarrow> string list \<Rightarrow> location option" where
  "walk_path fs cur [] = Some cur"
| "walk_path fs cur (c # cs) =
     (if is_dir fs cur then walk_path fs (if c = ''..'' then butlast cur else cur @ [c]) cs
      else None)"

definition resolve :: "filesystem \<Rightarrow> location \<Rightarrow> pure_path \<Rightarrow> location option" where
  "resolve fs cwd p = walk_path fs (if anchor p = [] then cwd else []) (parts p)"

definition has_nul :: "pure_path \<Rightarrow> bool" where
  "has_nul p = (\<exists>c \<in> set (parts p). CHR 0x00 \<in> set c)"

definition path_exists :: "filesystem \<Rightarrow> location \<Rightarrow> pure_path \<Rightarrow> bool" where
  "path_exists fs cwd p =
     (\<not> has_nul p \<and>
      (case resolve fs cwd p of None \<Rightarrow> False | Some l \<Rightarrow> is_dir fs l \<or> fs l \<noteq> None))"

definition read_json :: "filesystem \<Rightarrow> location \<Rightarrow> pure_path \<Rightarrow> pyval option" where
  "read_json fs cwd p =
     (if has_nul p then None
      else (case resolve fs cwd p of
              None \<Rightarrow> None
            | Some l \<Rightarrow> (case fs l of Some (FileEntry (Json v)) \<Rightarrow> Some v | _ \<Rightarrow> None)))"

definition write_text ::
  "filesystem \<Rightarrow> location \<Rightarrow> pure_path \<Rightarrow> file_content \<Rightarrow> py_error + filesystem" where
  "write_text fs cwd p text =
     (if has_nul p then Inl ValueError
      else (case resolve fs cwd p of
              None \<Rightarrow> Inl OSError
            | Some l \<Rightarrow> if is_dir fs l then Inl OSError else Inr (fs(l \<mapsto> FileEntry text))))"

definition unlink :: "filesystem \<Rightarrow> location \<Rightarrow> pure_path \<Rightarrow> py_error + filesystem" where
  "unlink fs cwd p =
     (if has_nul p then Inl ValueError
      else (case resolve fs cwd p of
              None \<Rightarrow> Inl OSError
            | Some l \<Rightarrow>
                (case fs l of Some (FileEntry c) \<Rightarrow> Inr (fs(l := None)) | _ \<Rightarrow> Inl OSError)))"

definition index_file :: "string \<Rightarrow> pure_path" where
  "index_file cache_dir = joinpath (Path cache_dir) ''cache_index.json''"

definition cache_file :: "string \<Rightarrow> string \<Rightarrow> pure_path" where
  "cache_file cache_dir key = joinpath (Path cache_dir) (key @ ''.cache'')"

text \<open>
  The dynamically typed operations the cache applies to the loaded index, which is whatever
  \<^verbatim>\<open>json.loads\<close> returned: \<^verbatim>\<open>key in index\<close>, \<^verbatim>\<open>index[key]\<close>, \<^verbatim>\<open>index[key] = entry\<close>,
  \<^verbatim>\<open>del index[key]\<close>, \<^verbatim>\<open>index.items()\<close>, \<^verbatim>\<open>data.get(key, default)\<close> and \<^verbatim>\<open>Path(x)\<close>, each
  with the exception Python raises on a value of the wrong type.
\<close>

fun py_contains :: "pyval \<Rightarrow> string \<Rightarrow> py_error + bool" where
  "py_contains (PDict kvs) key = Inr (key \<in> set (map fst kvs))"
| "py_contains (PList xs) key = Inr (PStr key \<in> set xs)"
| "py_contains (PTuple xs) key = Inr (PStr key \<in> set xs)"
| "py_contains (PStr s) key = Inr (sublist key s)"
| "py_contains v key = Inl TypeError"

fun py_getitem :: "pyval \<Rightarrow> string \<Rightarrow> py_error + pyval" where
  "py_getitem (PDict kvs) key = (case map_of kvs key of None \<Rightarrow> Inl KeyError | Some v \<Rightarrow> Inr v)"
| "py_getitem v key = Inl TypeError"

fun py_setitem :: "pyval \<Rightarrow> string \<Rightarrow> pyval \<Rightarrow> py_error + pyval" where
  "py_setitem (PDict kvs) key v = Inr (PDict (AList.update key v kvs))"
| "py_setitem d key v = Inl TypeError"

fun py_delitem :: "pyval \<Rightarrow> string \<Rightarrow> py_error + pyval" where
  "py_delitem (PDict kvs) key =
     (if key \<in> set (map fst kvs) then Inr (PDict (AList.delete key kvs)) else Inl KeyError)"
| "py_delitem v key = Inl TypeError"

fun py_items :: "pyval \<Rightarrow> py_error + (string \<times> pyval) list" where
  "py_items (PDict kvs) = Inr kvs"
| "py_items v = Inl AttributeError"

fun py_dict_get :: "pyval \<Rightarrow> string \<Rightarrow> pyval \<Rightarrow> py_error + pyval" where
  "py_dict_get (PDict kvs) key dflt =
     Inr (case map_of kvs key of None \<Rightarrow> dflt | Some v \<Rightarrow> v)"
| "py_dict_get v key dflt = Inl AttributeError"

fun py_path :: "pyval \<Rightarrow> py_error + pure_path" where
  "py_path (PStr s) = Inr (Path s)"
| "py_path v = Inl TypeError"

text \<open>
  \<^verbatim>\<open>_load_index\<close>, \<^verbatim>\<open>_save_index\<close>, \<^verbatim>\<open>get\<close>, \<^verbatim>\<open>set\<close>, \<^verbatim>\<open>invalidate\<close> and
  \<^verbatim>\<open>invalidate_dependent\<close> of a cache made with the path \<^verbatim>\<open>Path(cache_dir)\<close>, in a process
  whose working directory is \<open>cwd\<close>. \<^verbatim>\<open>time.time()\<close> is the parameter \<open>now\<close>. The result of
  \<^verbatim>\<open>get\<close> is the Python value returned, \<open>PNone\<close> for absent. A call that raises gives the
  exception.
\<close>

definition load_index :: "location \<Rightarrow> string \<Rightarrow> filesystem \<Rightarrow> pyval" where
  "load_index cwd cache_dir fs =
     (if path_exists fs cwd (index_file cache_dir) then
        (case read_json fs cwd (index_file cache_dir) of
           Some index \<Rightarrow> index
         | None \<Rightarrow> PDict [])
      else PDict [])"

definition save_index ::
  "nat \<Rightarrow> location \<Rightarrow> string \<Rightarrow> pyval \<Rightarrow> filesystem \<Rightarrow> py_error + filesystem" where
  "save_index frames cwd cache_dir index fs =
     (case json_dumps frames index of
        Inl e \<Rightarrow> Inl e
      | Inr text \<Rightarrow> write_text fs cwd (index_file cache_dir) text)"

definition cache_get :: "location \<Rightarrow> string \<Rightarrow> string \<Rightarrow> filesystem \<Rightarrow> py_error + pyval" where
  "cache_get cwd cache_dir key fs =
     (case py_contains (load_index cwd cache_dir fs) key of
        Inl e \<Rightarrow> Inl e
      | Inr present \<Rightarrow>
          if present then
            if path_exists fs cwd (cache_file cache_dir key) then
              (case read_json fs cwd (cache_file cache_dir key) of
                 Some v \<Rightarrow> Inr v
               | None \<Rightarrow> Inr PNone)
            else Inr PNone
          else Inr PNone)"

definition new_entry :: "string \<Rightarrow> real \<Rightarrow> string \<Rightarrow> string list option \<Rightarrow> pyval" where
  "new_entry cache_dir now key dependencies =
     PDict [(''timestamp'', PFloat now),
            (''dependencies'',
               PList (map PStr (case dependencies of None \<Rightarrow> [] | Some ds \<Rightarrow> ds))),
            (''file'', PStr (path_str (cache_file cache_dir key)))]"

definition cache_set ::
  "nat \<Rightarrow> location \<Rightarrow> string \<Rightarrow> real \<Rightarrow> string \<Rightarrow> pyval \<Rightarrow> string list option \<Rightarrow> filesystem
     \<Rightarrow> py_error + filesystem" where
  "cache_set frames cwd cache_dir now key v dependencies fs =
     (let index = load_index cwd cache_dir fs in
      case json_dumps frames v of
        Inl e \<Rightarrow> Inl e
      | Inr text \<Rightarrow>
          (case write_text fs cwd (cache_file cache_dir key) text of
             Inl e \<Rightarrow> Inl e
           | Inr fs1 \<Rightarrow>
               (case py_setitem index key (new_entry cache_dir now key dependencies) of
                  Inl e \<Rightarrow> Inl e
                | Inr index' \<Rightarrow> save_index frames cwd cache_dir index' fs1)))"

definition invalidate ::
  "nat \<Rightarrow> location \<Rightarrow> string \<Rightarrow> string \<Rightarrow> filesystem \<Rightarrow> py_error + filesystem" where
  "invalidate frames cwd cache_dir key fs =
     (let index = load_index cwd cache_dir fs in
      case py_contains index key of
        Inl e \<Rightarrow> Inl e
      | Inr present \<Rightarrow>
          if present then
            (case py_getitem index key of
               Inl e \<Rightarrow> Inl e
             | Inr entry \<Rightarrow>
                 (case py_getitem entry ''file'' of
                    Inl e \<Rightarrow> Inl e
                  | Inr f \<Rightarrow>
                      (case py_path f of
                         Inl e \<Rightarrow> Inl e
                       | Inr payload \<Rightarrow>
                           (case (if path_exists fs cwd payload then unlink fs cwd payload
                                  else Inr fs) of
                              Inl e \<Rightarrow> Inl e
                            | Inr fs1 \<Rightarrow>
                                (case py_delitem index key of
                                   Inl e \<Rightarrow> Inl e
                                 | Inr index' \<Rightarrow> save_index frames cwd cache_dir index' fs1)))))
          else Inr fs)"

fun to_invalidate :: "string \<Rightarrow> (string \<times> pyval) list \<Rightarrow> py_error + string list" where
  "to_invalidate dependency [] = Inr []"
| "to_invalidate dependency ((key, data) # items) =
     (case py_dict_get data ''dependencies'' (PList []) of
        Inl e \<Rightarrow> Inl e
      | Inr ds \<Rightarrow>
          (case py_contains ds dependency of
             Inl e \<Rightarrow> Inl e
           | Inr hit \<Rightarrow>
               (case to_invalidate dependency items of
                  Inl e \<Rightarrow> Inl e
                | Inr keys \<Rightarrow> Inr (if hit then key # keys else keys))))"

fun invalidate_each ::
  "nat \<Rightarrow> location \<Rightarrow> string \<Rightarrow> string list \<Rightarrow> filesystem \<Rightarrow> py_error + filesystem" where
  "invalidate_each frames cwd cache_dir [] fs = Inr fs"
| "invalidate_each frames cwd cache_dir (key # keys) fs =
     (case invalidate frames cwd cache_dir key fs of
        Inl e \<Rightarrow> Inl e
      | Inr fs' \<Rightarrow> invalidate_each frames cwd cache_dir keys fs')"

definition invalidate_dependent ::
  "nat \<Rightarrow> location \<Rightarrow> string \<Rightarrow> string \<Rightarrow> filesystem \<Rightarrow> py_error + filesystem" where
  "invalidate_dependent frames cwd cache_dir dependency fs =
     (case py_items (load_index cwd cache_dir fs) of
        Inl e \<Rightarrow> Inl e
      | Inr items \<Rightarrow>
          (case to_invalidate dependency items of
             Inl e \<Rightarrow> Inl e
           | Inr keys \<Rightarrow> invalidate_each frames cwd cache_dir keys fs))"

section \<open>Properties of the cache store\<close>

text \<open>
  The last part of a payload path ends in \<^verbatim>\<open>.cache\<close> and the last part of the index path is
  \<^verbatim>\<open>cache_index.json\<close>, so the two never lead to one location (\<open>payload_not_index\<close>). The
  cache creates and removes files only, so a path is resolved in the same way before and
  after each of its operations (\<open>same_dirs\<close>). \<^verbatim>\<open>Path(str(p))\<close> is \<open>p\<close> for the paths the cache
  builds (\<open>cache_file_str\<close>).
\<close>

lemma split_slash_not_Nil: "split_slash s \<noteq> []"
  by (cases s) auto

lemma split_slash_no_slash: "c \<in> set (split_slash s) \<Longrightarrow> CHR ''/'' \<notin> set c"
proof (induction s arbitrary: c)
  case Nil
  then show ?case by simp
next
  case (Cons a s)
  have ne: "split_slash s \<noteq> []" by (rule split_slash_not_Nil)
  then have hd_in: "hd (split_slash s) \<in> set (split_slash s)" by simp
  show ?case
  proof (cases "a = CHR ''/''")
    case True
    with Cons show ?thesis by auto
  next
    case False
    with Cons.prems have "c = a # hd (split_slash s) \<or> c \<in> set (tl (split_slash s))"
      by simp
    then show ?thesis
    proof
      assume "c = a # hd (split_slash s)"
      with False Cons.IH [OF hd_in] show ?thesis by simp
    next
      assume "c \<in> set (tl (split_slash s))"
      then have "c \<in> set (split_slash s)" by (rule list.set_sel(2) [OF ne])
      then show ?thesis by (rule Cons.IH)
    qed
  qed
qed

lemma split_slash_plain: "CHR ''/'' \<notin> set t \<Longrightarrow> split_slash t = [t]"
  by (induction t) auto

lemma split_slash_append:
  "CHR ''/'' \<notin> set t \<Longrightarrow>
     split_slash (s @ t) = butlast (split_slash s) @ [last (split_slash s) @ t]"
proof (induction s)
  case Nil
  then show ?case by (simp add: split_slash_plain)
next
  case (Cons a s)
  have ne: "split_slash s \<noteq> []" by (rule split_slash_not_Nil)
  then obtain h r where S: "split_slash s = h # r" by (cases "split_slash s") auto
  from Cons have X: "split_slash (s @ t) = butlast (h # r) @ [last (h # r) @ t]"
    by (simp add: S)
  show ?case
    by (cases r) (simp_all add: X S)
qed

lemma split_slash_eval:
  "split_slash (c # cs) =
     (case split_slash cs of
        [] \<Rightarrow> []
      | h # r \<Rightarrow> if c = CHR ''/'' then [] # h # r else (c # h) # r)"
  using split_slash_not_Nil [of cs] by (cases "split_slash cs") simp_all

lemma last_filter_keep: "xs \<noteq> [] \<Longrightarrow> P (last xs) \<Longrightarrow> filter P xs \<noteq> [] \<and> last (filter P xs) = last xs"
  by (induction xs) (auto split: if_splits)

lemma last_path_parts:
  assumes "last (split_slash s) \<noteq> []" "last (split_slash s) \<noteq> ''.''"
  shows "path_parts s \<noteq> [] \<and> last (path_parts s) = last (split_slash s)"
  unfolding path_parts_def
  using last_filter_keep [OF split_slash_not_Nil, of "\<lambda>c. c \<noteq> [] \<and> c \<noteq> ''.''" s] assms
  by simp

lemma parts_joinpath:
  "path_parts s \<noteq> [] \<Longrightarrow>
     parts (joinpath p s) \<noteq> [] \<and> last (parts (joinpath p s)) = last (path_parts s)"
  by (simp add: joinpath_def Path_def)

lemma cache_file_last:
  "parts (cache_file cache_dir key) \<noteq> []
     \<and> last (parts (cache_file cache_dir key)) = last (split_slash key) @ ''.cache''"
proof -
  have l: "last (split_slash (key @ ''.cache'')) = last (split_slash key) @ ''.cache''"
    by (simp add: split_slash_append)
  have "path_parts (key @ ''.cache'') \<noteq> []
      \<and> last (path_parts (key @ ''.cache'')) = last (split_slash (key @ ''.cache''))"
    by (rule last_path_parts) (simp_all add: l)
  with l parts_joinpath [of "key @ ''.cache''" "Path cache_dir"] show ?thesis
    by (simp add: cache_file_def)
qed

lemma index_file_last:
  "parts (index_file cache_dir) \<noteq> []
     \<and> last (parts (index_file cache_dir)) = ''cache_index.json''"
proof -
  have "path_parts ''cache_index.json'' = [''cache_index.json'']"
    by (simp add: path_parts_def split_slash_plain del: split_slash.simps)
  with parts_joinpath [of "''cache_index.json''" "Path cache_dir"] show ?thesis
    by (simp add: index_file_def)
qed

lemma walk_path_last:
  "walk_path fs cur ps = Some l \<Longrightarrow> ps \<noteq> [] \<Longrightarrow> last ps \<noteq> ''..'' \<Longrightarrow>
     l \<noteq> [] \<and> last l = last ps"
proof (induction ps arbitrary: cur)
  case Nil
  then show ?case by simp
next
  case (Cons c cs)
  show ?case
  proof (cases cs)
    case Nil
    with Cons.prems show ?thesis by (auto split: if_splits)
  next
    case (Cons c' cs')
    with Cons.prems Cons.IH show ?thesis by (auto split: if_splits)
  qed
qed

lemma payload_not_index:
  assumes "resolve fs cwd (cache_file cache_dir key) = Some l"
    and "resolve fs' cwd' (index_file cache_dir') = Some l'"
  shows "l \<noteq> l'"
proof
  assume eq: "l = l'"
  have "last (last (split_slash key) @ ''.cache'') \<noteq> last ''..''" by simp
  then have "last (split_slash key) @ ''.cache'' \<noteq> ''..''" by metis
  with assms(1) cache_file_last [of cache_dir key]
  have "last l = last (split_slash key) @ ''.cache''"
    using walk_path_last by (simp add: resolve_def)
  moreover from assms(2) index_file_last [of cache_dir']
  have "last l' = ''cache_index.json''"
    using walk_path_last by (simp add: resolve_def)
  ultimately have "last (last (split_slash key) @ ''.cache'') = last ''cache_index.json''"
    using eq by simp
  then show False by simp
qed

definition same_dirs :: "filesystem \<Rightarrow> filesystem \<Rightarrow> bool" where
  "same_dirs fs fs' = (\<forall>l. is_dir fs' l = is_dir fs l)"

lemma same_dirs_refl: "same_dirs fs fs"
  by (simp add: same_dirs_def)

lemma same_dirs_trans: "same_dirs fs fs1 \<Longrightarrow> same_dirs fs1 fs2 \<Longrightarrow> same_dirs fs fs2"
  by (simp add: same_dirs_def)

lemma same_dirs_write: "\<not> is_dir fs l \<Longrightarrow> same_dirs fs (fs(l \<mapsto> FileEntry text))"
  by (auto simp: same_dirs_def is_dir_def)

lemma same_dirs_remove: "fs l = Some (FileEntry c) \<Longrightarrow> same_dirs fs (fs(l := None))"
  by (auto simp: same_dirs_def is_dir_def)

lemma walk_path_same_dirs: "same_dirs fs fs' \<Longrightarrow> walk_path fs' cur ps = walk_path fs cur ps"
  by (induction ps arbitrary: cur) (simp_all add: same_dirs_def)

lemma resolve_same_dirs: "same_dirs fs fs' \<Longrightarrow> resolve fs' cwd p = resolve fs cwd p"
  by (simp add: resolve_def walk_path_same_dirs)

lemma write_text_result:
  assumes "write_text fs cwd p text = Inr fs'"
  shows "\<not> has_nul p \<and> (\<exists>l. resolve fs cwd p = Some l \<and> \<not> is_dir fs l
     \<and> fs' = fs(l \<mapsto> FileEntry text))"
  using assms by (auto simp: write_text_def split: if_splits option.splits)

definition normal_path :: "pure_path \<Rightarrow> bool" where
  "normal_path p =
     (anchor p \<in> {[], ''/'', ''//''}
      \<and> (\<forall>c \<in> set (parts p). c \<noteq> [] \<and> c \<noteq> ''.'' \<and> CHR ''/'' \<notin> set c))"

lemma path_parts_normal: "c \<in> set (path_parts s) \<Longrightarrow> c \<noteq> [] \<and> c \<noteq> ''.'' \<and> CHR ''/'' \<notin> set c"
  by (auto simp: path_parts_def dest: split_slash_no_slash)

lemma normal_Path: "normal_path (Path s)"
  using path_parts_normal [of _ s] by (auto simp: normal_path_def Path_def anchor_of_def)

lemma normal_joinpath: "normal_path p \<Longrightarrow> normal_path (joinpath p s)"
  using path_parts_normal [of _ s] normal_Path [of s]
  by (auto simp: joinpath_def normal_path_def)

lemma split_slash_cons_part:
  "CHR ''/'' \<notin> set c \<Longrightarrow> split_slash (c @ CHR ''/'' # r) = c # split_slash r"
  by (induction c) auto

lemma split_slash_join:
  "ps \<noteq> [] \<Longrightarrow> \<forall>c \<in> set ps. CHR ''/'' \<notin> set c \<Longrightarrow> split_slash (slash_join ps) = ps"
proof (induction ps rule: slash_join.induct)
  case 1
  then show ?case by simp
next
  case (2 c)
  then show ?case by (simp add: split_slash_plain)
next
  case (3 c d ds)
  then show ?case by (simp add: split_slash_cons_part)
qed

lemma path_parts_join:
  assumes "\<forall>c \<in> set ps. c \<noteq> [] \<and> c \<noteq> ''.'' \<and> CHR ''/'' \<notin> set c"
  shows "path_parts (slash_join ps) = ps"
proof (cases "ps = []")
  case True
  then show ?thesis by (simp add: path_parts_def)
next
  case False
  with assms have "split_slash (slash_join ps) = ps"
    by (intro split_slash_join) auto
  with assms show ?thesis
    by (simp add: path_parts_def filter_id_conv)
qed

lemma slash_join_hd:
  "ps \<noteq> [] \<Longrightarrow> hd ps \<noteq> [] \<Longrightarrow> slash_join ps \<noteq> [] \<and> hd (slash_join ps) = hd (hd ps)"
  by (induction ps rule: slash_join.induct) auto

lemma Path_path_str:
  assumes "normal_path p"
  shows "Path (path_str p) = p"
proof -
  obtain a ps where p: "p = PurePath a ps" by (cases p)
  from assms p have a: "a = [] \<or> a = ''/'' \<or> a = ''//''"
    and ps: "\<forall>c \<in> set ps. c \<noteq> [] \<and> c \<noteq> ''.'' \<and> CHR ''/'' \<notin> set c"
    by (auto simp: normal_path_def)
  have pp: "path_parts (slash_join ps) = ps" by (rule path_parts_join [OF ps])
  have first: "\<exists>x r. slash_join ps = x # r \<and> x \<noteq> CHR ''/''" if "ps \<noteq> []"
  proof -
    from that ps have h: "hd ps \<noteq> []" "CHR ''/'' \<notin> set (hd ps)" by auto
    then have "hd (hd ps) \<in> set (hd ps)" by simp
    with h have "hd (hd ps) \<noteq> CHR ''/''" by metis
    with slash_join_hd [OF that h(1)] have "slash_join ps \<noteq> []" "hd (slash_join ps) \<noteq> CHR ''/''"
      by simp_all
    then show ?thesis by (cases "slash_join ps") auto
  qed
  show ?thesis
  proof (cases "ps = []")
    case True
    with a p show ?thesis
      by (auto simp: Path_def path_str_def anchor_of_def path_parts_def)
  next
    case False
    from first [OF False] obtain x r where j: "slash_join ps = x # r" "x \<noteq> CHR ''/''" by blast
    have parts_a: "path_parts (a @ slash_join ps) = ps"
      using a pp by (auto simp: path_parts_def)
    have anchor_a: "anchor_of (a @ slash_join ps) = a"
      using a j by (auto simp: anchor_of_def)
    from False p parts_a anchor_a show ?thesis
      by (simp add: Path_def path_str_def)
  qed
qed

lemma cache_file_normal: "normal_path (cache_file cache_dir key)"
  by (simp add: cache_file_def normal_joinpath normal_Path)

lemma cache_file_str: "Path (path_str (cache_file cache_dir key)) = cache_file cache_dir key"
  by (rule Path_path_str [OF cache_file_normal])

text \<open>
  \<open>json_value\<close>: the values JSON gives back as they were: no tuple, no unserialisable
  object, and no \<^verbatim>\<open>nan\<close>, which is read back as a \<^verbatim>\<open>nan\<close> that equals nothing, itself
  included. \<open>cache_wf\<close>: the index on disk is what \<^verbatim>\<open>set\<close> and \<^verbatim>\<open>invalidate\<close> write, a
  dictionary of entries built by \<open>new_entry\<close>, the index file can be written, and no
  payload path of an entry is a directory; a new cache directory satisfies it
  (\<open>cache_wf_new_dir\<close>) and \<^verbatim>\<open>set\<close> keeps it (\<open>cache_wf_set\<close>). \<open>depends_on\<close>: the entry
  recorded for a key lists the dependency. \<open>payload_file\<close>: what the payload path of a key
  leads to. \<open>shares_payload\<close>: the payload path of the key leads to the file of a key that
  depends on the dependency.
\<close>

fun json_value :: "pyval \<Rightarrow> bool" where
  "json_value (PList xs) = (\<forall>x \<in> set xs. json_value x)"
| "json_value (PDict kvs) = (\<forall>v \<in> snd ` set kvs. json_value v)"
| "json_value (PTuple xs) = False"
| "json_value (PObject name) = False"
| "json_value PNaN = False"
| "json_value v = True"

lemma json_value_norm: "json_value v \<Longrightarrow> json_norm v = v"
proof (induction v)
  case (PList xs)
  then show ?case by (simp add: map_idI)
next
  case (PDict kvs)
  have "map (\<lambda>(k, v). (k, json_norm v)) kvs = map (\<lambda>p. p) kvs"
  proof (rule map_cong [OF refl])
    fix p assume p: "p \<in> set kvs"
    obtain k v where kv: "p = (k, v)" by (cases p)
    with p PDict.prems have "json_value v" by force
    moreover from p kv have "v \<in> Basic_BNFs.snds p" by simp
    ultimately have "json_norm v = v" using PDict.IH p by blast
    with kv show "(case p of (k, v) \<Rightarrow> (k, json_norm v)) = p" by simp
  qed
  then show ?case by simp
qed simp_all

lemma first_error_None: "first_error es = None \<longleftrightarrow> (\<forall>e \<in> set es. e = None)"
  by (induction es rule: first_error.induct) auto

lemma json_dumps_result:
  "json_dumps frames v = Inr text \<Longrightarrow> encode_error frames v = None \<and> text = Json (json_norm v)"
  by (auto simp: json_dumps_def split: option.splits)

lemma load_index_written:
  assumes "\<not> has_nul (index_file cache_dir)"
    and "resolve fs cwd (index_file cache_dir) = Some l"
    and "fs l = Some (FileEntry (Json index))"
  shows "load_index cwd cache_dir fs = index"
  using assms by (simp add: load_index_def path_exists_def read_json_def)

lemma cache_set_result:
  assumes "cache_set frames cwd cache_dir now key v dependencies fs = Inr fs'"
  shows "\<exists>kvs lp li. load_index cwd cache_dir fs = PDict kvs
     \<and> \<not> has_nul (cache_file cache_dir key)
     \<and> resolve fs cwd (cache_file cache_dir key) = Some lp \<and> \<not> is_dir fs lp
     \<and> \<not> has_nul (index_file cache_dir)
     \<and> resolve fs cwd (index_file cache_dir) = Some li \<and> \<not> is_dir fs li
     \<and> fs' = fs(lp \<mapsto> FileEntry (Json (json_norm v)),
               li \<mapsto> FileEntry (Json (json_norm
                  (PDict (AList.update key (new_entry cache_dir now key dependencies) kvs)))))"
proof -
  from assms obtain t1 where t1: "json_dumps frames v = Inr t1"
    by (cases "json_dumps frames v") (auto simp: cache_set_def Let_def)
  from assms t1 obtain fs1 where
    w1: "write_text fs cwd (cache_file cache_dir key) t1 = Inr fs1"
    by (cases "write_text fs cwd (cache_file cache_dir key) t1") (auto simp: cache_set_def Let_def)
  from assms t1 w1 obtain kvs where idx: "load_index cwd cache_dir fs = PDict kvs"
    by (cases "load_index cwd cache_dir fs") (auto simp: cache_set_def Let_def)
  let ?index' = "PDict (AList.update key (new_entry cache_dir now key dependencies) kvs)"
  from assms t1 w1 idx have save: "save_index frames cwd cache_dir ?index' fs1 = Inr fs'"
    by (simp add: cache_set_def Let_def)
  then obtain t2 where t2: "json_dumps frames ?index' = Inr t2"
    and w2: "write_text fs1 cwd (index_file cache_dir) t2 = Inr fs'"
    by (cases "json_dumps frames ?index'") (auto simp: save_index_def)
  from write_text_result [OF w1] obtain lp where
    p: "\<not> has_nul (cache_file cache_dir key)" "resolve fs cwd (cache_file cache_dir key) = Some lp"
       "\<not> is_dir fs lp" "fs1 = fs(lp \<mapsto> FileEntry t1)"
    by blast
  from write_text_result [OF w2] obtain li where
    i: "\<not> has_nul (index_file cache_dir)" "resolve fs1 cwd (index_file cache_dir) = Some li"
       "\<not> is_dir fs1 li" "fs' = fs1(li \<mapsto> FileEntry t2)"
    by blast
  have sd: "same_dirs fs fs1" unfolding p(4) by (rule same_dirs_write [OF p(3)])
  from i(2) have ri: "resolve fs cwd (index_file cache_dir) = Some li"
    by (simp add: resolve_same_dirs [OF sd])
  from i(3) sd have di: "\<not> is_dir fs li" by (simp add: same_dirs_def)
  from json_dumps_result [OF t1] json_dumps_result [OF t2] p(4) i(4)
  have "fs' = fs(lp \<mapsto> FileEntry (Json (json_norm v)),
               li \<mapsto> FileEntry (Json (json_norm ?index')))"
    by simp
  with idx p(1,2,3) i(1) ri di show ?thesis by blast
qed

lemma cache_get_after_set:
  assumes "cache_set frames cwd cache_dir now key v dependencies fs = Inr fs'"
  shows "cache_get cwd cache_dir key fs' = Inr (json_norm v)"
proof -
  let ?entry = "new_entry cache_dir now key dependencies"
  from cache_set_result [OF assms] obtain kvs lp li where
    p: "\<not> has_nul (cache_file cache_dir key)" "resolve fs cwd (cache_file cache_dir key) = Some lp"
       "\<not> is_dir fs lp" and
    i: "\<not> has_nul (index_file cache_dir)" "resolve fs cwd (index_file cache_dir) = Some li"
       "\<not> is_dir fs li" and
    fs': "fs' = fs(lp \<mapsto> FileEntry (Json (json_norm v)),
               li \<mapsto> FileEntry (Json (json_norm (PDict (AList.update key ?entry kvs)))))"
    by blast
  have ne: "lp \<noteq> li" by (rule payload_not_index [OF p(2) i(2)])
  have "same_dirs fs (fs(lp \<mapsto> FileEntry (Json (json_norm v))))"
    by (rule same_dirs_write [OF p(3)])
  moreover have "same_dirs (fs(lp \<mapsto> FileEntry (Json (json_norm v)))) fs'"
    unfolding fs' using i(3) ne by (intro same_dirs_write) (simp add: is_dir_def)
  ultimately have sd: "same_dirs fs fs'" by (rule same_dirs_trans)
  have ri: "resolve fs' cwd (index_file cache_dir) = Some li"
    and rp: "resolve fs' cwd (cache_file cache_dir key) = Some lp"
    using i(2) p(2) by (simp_all add: resolve_same_dirs [OF sd])
  have "fs' li = Some (FileEntry (Json (json_norm (PDict (AList.update key ?entry kvs)))))"
    by (simp add: fs')
  with i(1) ri have idx: "load_index cwd cache_dir fs' = json_norm (PDict (AList.update key ?entry kvs))"
    by (rule load_index_written)
  have "key \<in> fst ` set (AList.update key ?entry kvs)"
    by (simp add: dom_update)
  then have present: "py_contains (load_index cwd cache_dir fs') key = Inr True"
    unfolding idx by (force simp: image_iff)
  have payload: "fs' lp = Some (FileEntry (Json (json_norm v)))"
    using ne by (simp add: fs')
  from present payload p(1) rp show ?thesis
    by (simp add: cache_get_def path_exists_def read_json_def)
qed

lemma set_update_subset: "set (AList.update k v al) \<subseteq> insert (k, v) (set al)"
  by (induction al) auto

lemma cache_get_unusable_index:
  assumes "\<not> path_exists fs cwd (index_file cache_dir)
      \<or> (\<exists>l. resolve fs cwd (index_file cache_dir) = Some l
             \<and> (fs l = Some DirEntry \<or> fs l = Some (FileEntry Unreadable)
                  \<or> fs l = Some (FileEntry Malformed)))"
  shows "cache_get cwd cache_dir key fs = Inr PNone"
proof -
  from assms have "load_index cwd cache_dir fs = PDict []"
    by (auto simp: load_index_def read_json_def)
  then show ?thesis by (simp add: cache_get_def)
qed

lemma cache_get_unusable_payload:
  assumes "\<not> path_exists fs cwd (cache_file cache_dir key)
      \<or> (\<exists>l. resolve fs cwd (cache_file cache_dir key) = Some l
             \<and> (fs l = Some DirEntry \<or> fs l = Some (FileEntry Unreadable)
                  \<or> fs l = Some (FileEntry Malformed)))"
    and "py_contains (load_index cwd cache_dir fs) key = Inr present"
  shows "cache_get cwd cache_dir key fs = Inr PNone"
  using assms by (auto simp: cache_get_def read_json_def)

definition index_entries :: "location \<Rightarrow> string \<Rightarrow> filesystem \<Rightarrow> (string \<times> pyval) list" where
  "index_entries cwd cache_dir fs =
     (case load_index cwd cache_dir fs of PDict kvs \<Rightarrow> kvs | _ \<Rightarrow> [])"

definition written_entries :: "string \<Rightarrow> (string \<times> pyval) list \<Rightarrow> bool" where
  "written_entries cache_dir kvs =
     (distinct (map fst kvs)
      \<and> (\<forall>(k, e) \<in> set kvs. \<exists>now ds. e = new_entry cache_dir now k ds))"

definition index_writable :: "location \<Rightarrow> string \<Rightarrow> filesystem \<Rightarrow> bool" where
  "index_writable cwd cache_dir fs =
     (\<not> has_nul (index_file cache_dir)
      \<and> (\<exists>l. resolve fs cwd (index_file cache_dir) = Some l \<and> \<not> is_dir fs l))"

definition payload_ok :: "location \<Rightarrow> string \<Rightarrow> filesystem \<Rightarrow> string \<Rightarrow> bool" where
  "payload_ok cwd cache_dir fs key =
     (\<forall>l. resolve fs cwd (cache_file cache_dir key) = Some l \<longrightarrow> \<not> is_dir fs l)"

definition cache_wf :: "location \<Rightarrow> string \<Rightarrow> filesystem \<Rightarrow> bool" where
  "cache_wf cwd cache_dir fs =
     (\<exists>kvs. load_index cwd cache_dir fs = PDict kvs \<and> written_entries cache_dir kvs
        \<and> index_writable cwd cache_dir fs
        \<and> (\<forall>k \<in> fst ` set kvs. payload_ok cwd cache_dir fs k))"

definition depends_on :: "location \<Rightarrow> string \<Rightarrow> filesystem \<Rightarrow> string \<Rightarrow> string \<Rightarrow> bool" where
  "depends_on cwd cache_dir fs key dependency =
     (\<exists>now ds. map_of (index_entries cwd cache_dir fs) key = Some (new_entry cache_dir now key ds)
        \<and> dependency \<in> set (case ds of None \<Rightarrow> [] | Some xs \<Rightarrow> xs))"

definition payload_file :: "location \<Rightarrow> string \<Rightarrow> filesystem \<Rightarrow> string \<Rightarrow> fs_entry option" where
  "payload_file cwd cache_dir fs key =
     (case resolve fs cwd (cache_file cache_dir key) of None \<Rightarrow> None | Some l \<Rightarrow> fs l)"

definition shares_payload :: "location \<Rightarrow> string \<Rightarrow> filesystem \<Rightarrow> string \<Rightarrow> string \<Rightarrow> bool" where
  "shares_payload cwd cache_dir fs key dependency =
     (\<exists>k l. depends_on cwd cache_dir fs k dependency
        \<and> resolve fs cwd (cache_file cache_dir k) = Some l
        \<and> resolve fs cwd (cache_file cache_dir key) = Some l)"

lemma json_value_new_entry: "json_value (new_entry cache_dir now key ds)"
  by (auto simp: new_entry_def)

lemma written_entries_json:
  assumes "written_entries cache_dir kvs"
  shows "json_value (PDict kvs)"
proof -
  have "json_value e" if "(k, e) \<in> set kvs" for k e
  proof -
    from assms that obtain now ds where "e = new_entry cache_dir now k ds"
      by (auto simp: written_entries_def)
    then show ?thesis by (simp only: json_value_new_entry)
  qed
  then show ?thesis by auto
qed

lemma encode_new_entry: "2 \<le> frames \<Longrightarrow> encode_error frames (new_entry cache_dir now key ds) = None"
  by (auto simp: new_entry_def first_error_None)

lemma encode_written:
  assumes "written_entries cache_dir kvs" "3 \<le> frames"
  shows "encode_error frames (PDict kvs) = None"
proof -
  have "encode_error (frames - 1) e = None" if "(k, e) \<in> set kvs" for k e
  proof -
    from assms(1) that obtain now ds where "e = new_entry cache_dir now k ds"
      by (auto simp: written_entries_def)
    with assms(2) show ?thesis by (simp add: encode_new_entry)
  qed
  with assms(2) show ?thesis by (auto simp: first_error_None)
qed

lemma written_entries_filter:
  "written_entries cache_dir kvs \<Longrightarrow> written_entries cache_dir (filter P kvs)"
  by (auto simp: written_entries_def distinct_map_filter)

lemma save_index_written:
  assumes "written_entries cache_dir kvs" "3 \<le> frames"
  shows "save_index frames cwd cache_dir (PDict kvs) fs
     = write_text fs cwd (index_file cache_dir) (Json (PDict kvs))"
  using encode_written [OF assms] json_value_norm [OF written_entries_json [OF assms(1)]]
  by (simp add: save_index_def json_dumps_def del: json_norm.simps encode_error.simps)

lemma index_writable_same_dirs:
  "same_dirs fs fs' \<Longrightarrow> index_writable cwd cache_dir fs \<Longrightarrow> index_writable cwd cache_dir fs'"
  by (simp add: index_writable_def resolve_same_dirs) (simp add: same_dirs_def)

lemma payload_ok_same_dirs:
  "same_dirs fs fs' \<Longrightarrow> payload_ok cwd cache_dir fs k \<Longrightarrow> payload_ok cwd cache_dir fs' k"
  by (simp add: payload_ok_def resolve_same_dirs) (simp add: same_dirs_def)

lemma invalidate_wf:
  assumes idx: "load_index cwd cache_dir fs = PDict kvs" and wf: "written_entries cache_dir kvs"
    and iw: "index_writable cwd cache_dir fs"
    and po: "\<forall>k \<in> fst ` set kvs. payload_ok cwd cache_dir fs k"
    and fr: "3 \<le> frames"
  shows "\<exists>fs'. invalidate frames cwd cache_dir key fs = Inr fs'
     \<and> load_index cwd cache_dir fs' = PDict (filter (\<lambda>(k, e). k \<noteq> key) kvs)
     \<and> same_dirs fs fs'
     \<and> (\<forall>l. resolve fs cwd (index_file cache_dir) \<noteq> Some l
            \<and> (key \<in> fst ` set kvs \<longrightarrow> resolve fs cwd (cache_file cache_dir key) \<noteq> Some l)
          \<longrightarrow> fs' l = fs l)"
proof (cases "key \<in> set (map fst kvs)")
  case False
  then have "filter (\<lambda>(k, e). k \<noteq> key) kvs = kvs"
    by (force simp: filter_id_conv)
  with False idx show ?thesis
    by (simp add: invalidate_def same_dirs_refl)
next
  case True
  then obtain e where e: "map_of kvs key = Some e"
    by (cases "map_of kvs key") (auto simp: map_of_eq_None_iff)
  then have "(key, e) \<in> set kvs" by (rule map_of_SomeD)
  with wf obtain now ds where "e = new_entry cache_dir now key ds"
    by (auto simp: written_entries_def)
  then have payload: "py_getitem e ''file'' = Inr (PStr (path_str (cache_file cache_dir key)))"
    by (simp add: new_entry_def)
  let ?pf = "cache_file cache_dir key"
  let ?kvs' = "filter (\<lambda>(k, e). k \<noteq> key) kvs"
  from iw obtain li where
    i: "\<not> has_nul (index_file cache_dir)" "resolve fs cwd (index_file cache_dir) = Some li"
       "\<not> is_dir fs li"
    by (auto simp: index_writable_def)
  have "\<exists>fs1. (if path_exists fs cwd ?pf then unlink fs cwd ?pf else Inr fs) = Inr fs1
      \<and> same_dirs fs fs1 \<and> (\<forall>l. resolve fs cwd ?pf \<noteq> Some l \<longrightarrow> fs1 l = fs l)"
  proof (cases "path_exists fs cwd ?pf")
    case False
    then show ?thesis by (simp add: same_dirs_refl)
  next
    case True
    then obtain lp where lp: "\<not> has_nul ?pf" "resolve fs cwd ?pf = Some lp"
      "is_dir fs lp \<or> fs lp \<noteq> None"
      by (auto simp: path_exists_def split: option.splits)
    from po \<open>key \<in> set (map fst kvs)\<close> lp(2) have nd: "\<not> is_dir fs lp"
      by (auto simp: payload_ok_def)
    with lp(3) obtain c where c: "fs lp = Some (FileEntry c)"
      by (cases "fs lp") (auto simp: is_dir_def intro: fs_entry.exhaust)
    with lp have "unlink fs cwd ?pf = Inr (fs(lp := None))"
      by (simp add: unlink_def)
    moreover have "same_dirs fs (fs(lp := None))" by (rule same_dirs_remove [of fs lp c, OF c])
    ultimately show ?thesis using True lp(2) by auto
  qed
  then obtain fs1 where
    un: "(if path_exists fs cwd ?pf then unlink fs cwd ?pf else Inr fs) = Inr fs1" and
    sd1: "same_dirs fs fs1" and keep1: "\<forall>l. resolve fs cwd ?pf \<noteq> Some l \<longrightarrow> fs1 l = fs l"
    by blast
  have del: "AList.delete key kvs = ?kvs'"
    by (induction kvs) auto
  have wf': "written_entries cache_dir ?kvs'"
    by (rule written_entries_filter [OF wf])
  let ?fs' = "fs1(li \<mapsto> FileEntry (Json (PDict ?kvs')))"
  from i(2) have ri1: "resolve fs1 cwd (index_file cache_dir) = Some li"
    by (simp add: resolve_same_dirs [OF sd1])
  from i(3) sd1 have di1: "\<not> is_dir fs1 li" by (simp add: same_dirs_def)
  have "save_index frames cwd cache_dir (PDict ?kvs') fs1 = Inr ?fs'"
    using i(1) ri1 di1 by (simp add: save_index_written [OF wf' fr] write_text_def)
  moreover have "py_getitem (PDict kvs) key = Inr e"
    using e by simp
  ultimately have run: "invalidate frames cwd cache_dir key fs = Inr ?fs'"
    using True idx payload del un
    by (simp add: invalidate_def Let_def cache_file_str del: py_getitem.simps)
  have sd: "same_dirs fs ?fs'"
    by (rule same_dirs_trans [OF sd1 same_dirs_write [OF di1]])
  have "resolve ?fs' cwd (index_file cache_dir) = Some li"
    using i(2) by (simp add: resolve_same_dirs [OF sd])
  with i(1) have idx': "load_index cwd cache_dir ?fs' = PDict ?kvs'"
    by (rule load_index_written) simp
  have "?fs' l = fs l"
    if "resolve fs cwd (index_file cache_dir) \<noteq> Some l" "resolve fs cwd ?pf \<noteq> Some l" for l
    using that i(2) keep1 by auto
  with run idx' sd True show ?thesis by auto
qed

lemma invalidate_each_wf:
  assumes "load_index cwd cache_dir fs = PDict kvs" "written_entries cache_dir kvs"
    and "index_writable cwd cache_dir fs"
    and "\<forall>k \<in> fst ` set kvs. payload_ok cwd cache_dir fs k"
    and fr: "3 \<le> frames"
  shows "\<exists>fs'. invalidate_each frames cwd cache_dir keys fs = Inr fs'
     \<and> load_index cwd cache_dir fs' = PDict (filter (\<lambda>(k, e). k \<notin> set keys) kvs)
     \<and> same_dirs fs fs'
     \<and> (\<forall>l. resolve fs cwd (index_file cache_dir) \<noteq> Some l
            \<and> (\<forall>k \<in> set keys \<inter> fst ` set kvs. resolve fs cwd (cache_file cache_dir k) \<noteq> Some l)
          \<longrightarrow> fs' l = fs l)"
  using assms(1-4)
proof (induction keys arbitrary: fs kvs)
  case Nil
  then show ?case by (simp add: same_dirs_refl)
next
  case (Cons key keys)
  let ?kvs1 = "filter (\<lambda>(k, e). k \<noteq> key) kvs"
  from invalidate_wf [OF Cons.prems fr, of key] obtain fs1 where
    one: "invalidate frames cwd cache_dir key fs = Inr fs1" and
    idx1: "load_index cwd cache_dir fs1 = PDict ?kvs1" and
    sd1: "same_dirs fs fs1" and
    keep1: "\<forall>l. resolve fs cwd (index_file cache_dir) \<noteq> Some l
            \<and> (key \<in> fst ` set kvs \<longrightarrow> resolve fs cwd (cache_file cache_dir key) \<noteq> Some l)
          \<longrightarrow> fs1 l = fs l"
    by blast
  have wf1: "written_entries cache_dir ?kvs1"
    by (rule written_entries_filter [OF Cons.prems(2)])
  have iw1: "index_writable cwd cache_dir fs1"
    by (rule index_writable_same_dirs [OF sd1 Cons.prems(3)])
  have po1: "\<forall>k \<in> fst ` set ?kvs1. payload_ok cwd cache_dir fs1 k"
    using Cons.prems(4) payload_ok_same_dirs [OF sd1] by auto
  from Cons.IH [OF idx1 wf1 iw1 po1] obtain fs' where
    rest: "invalidate_each frames cwd cache_dir keys fs1 = Inr fs'" and
    idx': "load_index cwd cache_dir fs'
       = PDict (filter (\<lambda>(k, e). k \<notin> set keys) ?kvs1)" and
    sd': "same_dirs fs1 fs'" and
    keep': "\<forall>l. resolve fs1 cwd (index_file cache_dir) \<noteq> Some l
            \<and> (\<forall>k \<in> set keys \<inter> fst ` set ?kvs1. resolve fs1 cwd (cache_file cache_dir k) \<noteq> Some l)
          \<longrightarrow> fs' l = fs1 l"
    by blast
  have flt: "filter (\<lambda>(k, e). k \<notin> set keys) ?kvs1
      = filter (\<lambda>(k, e). k \<notin> set (key # keys)) kvs"
    by (auto intro: filter_cong)
  have run: "invalidate_each frames cwd cache_dir (key # keys) fs = Inr fs'"
    using one rest by simp
  have sd: "same_dirs fs fs'" by (rule same_dirs_trans [OF sd1 sd'])
  have keep: "fs' l = fs l"
    if a: "resolve fs cwd (index_file cache_dir) \<noteq> Some l"
      and b: "\<forall>k \<in> set (key # keys) \<inter> fst ` set kvs. resolve fs cwd (cache_file cache_dir k) \<noteq> Some l"
    for l
  proof -
    from a b keep1 have "fs1 l = fs l" by auto
    moreover have "fs' l = fs1 l"
    proof -
      have "resolve fs1 cwd (index_file cache_dir) \<noteq> Some l"
        using a by (simp add: resolve_same_dirs [OF sd1])
      moreover have "\<forall>k \<in> set keys \<inter> fst ` set ?kvs1. resolve fs1 cwd (cache_file cache_dir k) \<noteq> Some l"
        using b by (auto simp: resolve_same_dirs [OF sd1])
      ultimately show ?thesis using keep' by blast
    qed
    ultimately show ?thesis by simp
  qed
  from run idx' flt sd keep show ?case by auto
qed

lemma map_PStr_eq: "map PStr xs = map PStr ys \<longleftrightarrow> xs = ys"
  by (simp add: inj_map_eq_map inj_def)

lemma to_invalidate_written:
  assumes "\<forall>(k, e) \<in> set kvs. \<exists>now ds. e = new_entry cache_dir now k ds"
  shows "\<exists>keys. to_invalidate dependency kvs = Inr keys
     \<and> set keys = {k. \<exists>now ds. (k, new_entry cache_dir now k ds) \<in> set kvs
                      \<and> dependency \<in> set (case ds of None \<Rightarrow> [] | Some xs \<Rightarrow> xs)}"
  using assms
proof (induction kvs)
  case Nil
  then show ?case by simp
next
  case (Cons p kvs)
  obtain key e where p: "p = (key, e)" by (cases p)
  with Cons.prems obtain now ds where e: "e = new_entry cache_dir now key ds"
    by auto
  from Cons obtain keys where
    keys: "to_invalidate dependency kvs = Inr keys"
    "set keys = {k. \<exists>now ds. (k, new_entry cache_dir now k ds) \<in> set kvs
                      \<and> dependency \<in> set (case ds of None \<Rightarrow> [] | Some xs \<Rightarrow> xs)}"
    by auto
  let ?hit = "dependency \<in> set (case ds of None \<Rightarrow> [] | Some xs \<Rightarrow> xs)"
  have hit: "py_dict_get e ''dependencies'' (PList []) = Inr (PList (map PStr (case ds of None \<Rightarrow> [] | Some xs \<Rightarrow> xs)))"
    by (simp add: e new_entry_def)
  have same: "dependency \<in> set (case ds' of None \<Rightarrow> [] | Some xs \<Rightarrow> xs) \<longleftrightarrow> ?hit"
    if "new_entry cache_dir now' key ds' = e" for now' ds'
    using that by (auto simp: e new_entry_def map_PStr_eq split: option.splits)
  have run: "to_invalidate dependency (p # kvs) = Inr (if ?hit then key # keys else keys)"
    using p hit keys(1) by (auto simp: image_iff)
  have "set (if ?hit then key # keys else keys)
      = {k. \<exists>now ds. (k, new_entry cache_dir now k ds) \<in> set (p # kvs)
                      \<and> dependency \<in> set (case ds of None \<Rightarrow> [] | Some xs \<Rightarrow> xs)}"
    (is "?L = ?R")
  proof (intro set_eqI iffI)
    fix k assume "k \<in> ?L"
    then consider "?hit" "k = key" | "k \<in> set keys"
      by (auto split: if_splits)
    then show "k \<in> ?R"
    proof cases
      case 1
      with p e show ?thesis by auto
    next
      case 2
      with keys(2) show ?thesis by auto
    qed
  next
    fix k assume "k \<in> ?R"
    then obtain now' ds' where
      k: "(k, new_entry cache_dir now' k ds') \<in> set (p # kvs)"
      "dependency \<in> set (case ds' of None \<Rightarrow> [] | Some xs \<Rightarrow> xs)"
      by blast
    show "k \<in> ?L"
    proof (cases "(k, new_entry cache_dir now' k ds') = p")
      case True
      with p have "k = key" "new_entry cache_dir now' key ds' = e" by auto
      with same k(2) show ?thesis by auto
    next
      case False
      with k keys(2) have "k \<in> set keys" by auto
      then show ?thesis by auto
    qed
  qed
  with run show ?case by blast
qed

lemma index_entries_wf:
  "load_index cwd cache_dir fs = PDict kvs \<Longrightarrow> index_entries cwd cache_dir fs = kvs"
  by (simp add: index_entries_def)

lemma cache_get_same:
  assumes "load_index cwd cache_dir fs = PDict kvs" "load_index cwd cache_dir fs' = PDict kvs'"
    and "key \<in> fst ` set kvs' \<longleftrightarrow> key \<in> fst ` set kvs"
    and "resolve fs' cwd (cache_file cache_dir key) = resolve fs cwd (cache_file cache_dir key)"
    and "\<forall>l. resolve fs cwd (cache_file cache_dir key) = Some l
           \<longrightarrow> fs' l = fs l \<and> is_dir fs' l = is_dir fs l"
  shows "cache_get cwd cache_dir key fs' = cache_get cwd cache_dir key fs"
  using assms by (auto simp: cache_get_def path_exists_def read_json_def split: option.splits)

lemma cache_get_absent:
  assumes "load_index cwd cache_dir fs = PDict kvs" "key \<notin> fst ` set kvs"
  shows "cache_get cwd cache_dir key fs = Inr PNone"
  using assms by (simp add: cache_get_def)

lemma cache_wf_set:
  assumes "cache_wf cwd cache_dir fs"
    and "cache_set frames cwd cache_dir now key v dependencies fs = Inr fs'"
  shows "cache_wf cwd cache_dir fs'"
proof -
  let ?entry = "new_entry cache_dir now key dependencies"
  from cache_set_result [OF assms(2)] obtain kvs0 lp li where
    idx0: "load_index cwd cache_dir fs = PDict kvs0" and
    p: "\<not> has_nul (cache_file cache_dir key)" "resolve fs cwd (cache_file cache_dir key) = Some lp"
       "\<not> is_dir fs lp" and
    i: "\<not> has_nul (index_file cache_dir)" "resolve fs cwd (index_file cache_dir) = Some li"
       "\<not> is_dir fs li" and
    fs': "fs' = fs(lp \<mapsto> FileEntry (Json (json_norm v)),
               li \<mapsto> FileEntry (Json (json_norm (PDict (AList.update key ?entry kvs0)))))"
    by blast
  from assms(1) idx0 have wf0: "written_entries cache_dir kvs0"
    and po0: "\<forall>k \<in> fst ` set kvs0. payload_ok cwd cache_dir fs k"
    by (auto simp: cache_wf_def)
  let ?kvs = "AList.update key ?entry kvs0"
  have ne: "lp \<noteq> li" by (rule payload_not_index [OF p(2) i(2)])
  have "same_dirs fs (fs(lp \<mapsto> FileEntry (Json (json_norm v))))"
    by (rule same_dirs_write [OF p(3)])
  moreover have "same_dirs (fs(lp \<mapsto> FileEntry (Json (json_norm v)))) fs'"
    unfolding fs' using i(3) ne by (intro same_dirs_write) (simp add: is_dir_def)
  ultimately have sd: "same_dirs fs fs'" by (rule same_dirs_trans)
  have ri: "resolve fs' cwd (index_file cache_dir) = Some li"
    using i(2) by (simp add: resolve_same_dirs [OF sd])
  have "fs' li = Some (FileEntry (Json (json_norm (PDict ?kvs))))"
    by (simp add: fs')
  with i(1) ri have idx: "load_index cwd cache_dir fs' = json_norm (PDict ?kvs)"
    by (rule load_index_written)
  have "\<exists>now' ds. e = new_entry cache_dir now' k ds" if "(k, e) \<in> set ?kvs" for k e
  proof -
    from that set_update_subset [of key ?entry kvs0]
    have "(k, e) = (key, ?entry) \<or> (k, e) \<in> set kvs0"
      by auto
    then show ?thesis
    proof
      assume "(k, e) = (key, ?entry)"
      then show ?thesis by blast
    next
      assume "(k, e) \<in> set kvs0"
      with wf0 show ?thesis by (auto simp: written_entries_def)
    qed
  qed
  with wf0 have wf: "written_entries cache_dir ?kvs"
    by (auto simp: written_entries_def distinct_update)
  from written_entries_json [OF wf] have norm: "json_norm (PDict ?kvs) = PDict ?kvs"
    by (rule json_value_norm)
  have iw: "index_writable cwd cache_dir fs'"
    using i ri sd by (auto simp: index_writable_def same_dirs_def)
  have po: "payload_ok cwd cache_dir fs' k" if "k \<in> fst ` set ?kvs" for k
  proof (cases "k = key")
    case True
    with p(2,3) sd show ?thesis
      by (auto simp: payload_ok_def resolve_same_dirs [OF sd] same_dirs_def)
  next
    case False
    with that have "k \<in> fst ` set kvs0" by (simp add: dom_update)
    with po0 payload_ok_same_dirs [OF sd] show ?thesis by blast
  qed
  from idx norm wf iw po show ?thesis
    unfolding cache_wf_def by (intro exI [of _ ?kvs]) simp
qed

lemma int_too_long_small: "\<bar>i\<bar> < 10 \<Longrightarrow> \<not> int_too_long i"
proof -
  assume "\<bar>i\<bar> < 10"
  moreover have "(10::int) ^ 1 \<le> 10 ^ max_str_digits"
    by (rule power_increasing) (simp_all add: max_str_digits_def)
  ultimately show ?thesis by (simp add: int_too_long_def)
qed

lemmas cache_eval =
  cache_set_def cache_get_def invalidate_def invalidate_dependent_def load_index_def
  save_index_def json_dumps_def write_text_def unlink_def read_json_def path_exists_def
  resolve_def has_nul_def is_dir_def cache_file_def index_file_def joinpath_def Path_def
  anchor_of_def path_parts_def path_str_def new_entry_def split_slash_eval
  int_too_long_small Let_def

lemma cache_set_missing_parent:
  "cache_set 1000 [] ''c'' 0 ''a/b'' (PInt 1) None [[''c''] \<mapsto> DirEntry] = Inl OSError"
  by (simp add: cache_eval del: split_slash.simps(2))

lemma cache_wf_new_dir: "cache_wf [] ''c'' [[''c''] \<mapsto> DirEntry]"
proof -
  have "load_index [] ''c'' [[''c''] \<mapsto> DirEntry] = PDict []"
    by (simp add: cache_eval del: split_slash.simps(2))
  moreover have "index_writable [] ''c'' [[''c''] \<mapsto> DirEntry]"
    by (simp add: index_writable_def cache_eval del: split_slash.simps(2))
  ultimately show ?thesis
    by (simp add: cache_wf_def written_entries_def)
qed

section \<open>Claims about the cache store\<close>




text \<open>
  Claim C4 does not hold for every key: the keys \<^verbatim>\<open>k\<close> and \<^verbatim>\<open>./k\<close> have one payload file.
  After \<^verbatim>\<open>set("k", 1, ["d"])\<close> and \<^verbatim>\<open>set("./k", 2)\<close> the entry of \<^verbatim>\<open>./k\<close> does not list \<^verbatim>\<open>d\<close>
  and \<^verbatim>\<open>get("./k")\<close> is 2; \<^verbatim>\<open>invalidate_dependent("d")\<close> removes the file together with the
  entry of \<^verbatim>\<open>k\<close>, and \<^verbatim>\<open>get("./k")\<close> is absent although the index still holds the entry of
  \<^verbatim>\<open>./k\<close>.
\<close>

theorem invalidate_dependent_shared_payload:
  "\<exists>fs1 fs2 fs3.
      cache_set 1000 [] ''c'' 0 ''k'' (PInt 1) (Some [''d'']) [[''c''] \<mapsto> DirEntry] = Inr fs1
    \<and> cache_set 1000 [] ''c'' 1 ''./k'' (PInt 2) None fs1 = Inr fs2
    \<and> cache_wf [] ''c'' fs2
    \<and> index_entries [] ''c'' fs2
        = [(''k'', new_entry ''c'' 0 ''k'' (Some [''d''])),
           (''./k'', new_entry ''c'' 1 ''./k'' None)]
    \<and> \<not> depends_on [] ''c'' fs2 ''./k'' ''d''
    \<and> cache_get [] ''c'' ''./k'' fs2 = Inr (PInt 2)
    \<and> invalidate_dependent 1000 [] ''c'' ''d'' fs2 = Inr fs3
    \<and> index_entries [] ''c'' fs3 = [(''./k'', new_entry ''c'' 1 ''./k'' None)]
    \<and> cache_get [] ''c'' ''./k'' fs3 = Inr PNone"
proof -
  let ?fs0 = "[[''c''] \<mapsto> DirEntry]"
  let ?k = "(''k'', new_entry ''c'' 0 ''k'' (Some [''d'']))"
  let ?k' = "(''./k'', new_entry ''c'' 1 ''./k'' None)"
  let ?fs1 = "?fs0([''c'', ''k.cache''] \<mapsto> FileEntry (Json (PInt 1)),
                   [''c'', ''cache_index.json''] \<mapsto> FileEntry (Json (PDict [?k])))"
  let ?fs2 = "?fs1([''c'', ''k.cache''] \<mapsto> FileEntry (Json (PInt 2)),
                   [''c'', ''cache_index.json''] \<mapsto> FileEntry (Json (PDict [?k, ?k'])))"
  let ?fs3 = "(?fs2([''c'', ''k.cache''] := None))
                 ([''c'', ''cache_index.json''] \<mapsto> FileEntry (Json (PDict [?k'])))"
  have s1: "cache_set 1000 [] ''c'' 0 ''k'' (PInt 1) (Some [''d'']) ?fs0 = Inr ?fs1"
    by (simp add: cache_eval del: split_slash.simps(2))
  have s2: "cache_set 1000 [] ''c'' 1 ''./k'' (PInt 2) None ?fs1 = Inr ?fs2"
    by (simp add: cache_eval del: split_slash.simps(2))
  have wf: "cache_wf [] ''c'' ?fs2"
    by (rule cache_wf_set [OF cache_wf_set [OF cache_wf_new_dir s1] s2])
  have idx2: "load_index [] ''c'' ?fs2 = PDict [?k, ?k']"
    by (simp add: cache_eval del: split_slash.simps(2))
  then have e2: "index_entries [] ''c'' ?fs2 = [?k, ?k']"
    by (rule index_entries_wf)
  have nd: "\<not> depends_on [] ''c'' ?fs2 ''./k'' ''d''"
    unfolding depends_on_def e2 by (auto simp: new_entry_def split: option.splits)
  have g2: "cache_get [] ''c'' ''./k'' ?fs2 = Inr (PInt 2)"
    using cache_get_after_set [OF s2] by simp
  have inv: "invalidate_dependent 1000 [] ''c'' ''d'' ?fs2 = Inr ?fs3"
    by (simp add: cache_eval del: split_slash.simps(2))
  have idx3: "load_index [] ''c'' ?fs3 = PDict [?k']"
    by (simp add: cache_eval del: split_slash.simps(2))
  then have e3: "index_entries [] ''c'' ?fs3 = [?k']"
    by (rule index_entries_wf)
  have g3: "cache_get [] ''c'' ''./k'' ?fs3 = Inr PNone"
    by (simp add: cache_eval del: split_slash.simps(2))
  from s1 s2 wf e2 nd g2 inv e3 g3 show ?thesis by blast
qed

text \<open>
  Claim C4, amended. On a cache whose index was written by the cache itself (and with room
  for the three levels of nesting of the index in the encoder), \<^verbatim>\<open>invalidate_dependent(d)\<close>
  returns and leaves such a cache. Afterwards \<^verbatim>\<open>get(k)\<close> is absent for every key whose
  recorded dependency list contains \<open>d\<close>. Every other key keeps its index entry, and it
  keeps its payload file and the result of \<^verbatim>\<open>get\<close> unless its payload path leads to the
  file of a removed key. The removal is single-level: in the witness \<open>b\<close> depends on \<open>a\<close>,
  \<open>a\<close> depends on \<open>d\<close>, and after \<^verbatim>\<open>invalidate_dependent(d)\<close> the entry of \<open>b\<close> is still
  served.
\<close>

theorem invalidate_dependent_single_level:
  assumes "cache_wf cwd cache_dir fs" and "3 \<le> frames"
  shows "\<exists>fs'. invalidate_dependent frames cwd cache_dir dependency fs = Inr fs'
     \<and> cache_wf cwd cache_dir fs'
     \<and> (\<forall>key. depends_on cwd cache_dir fs key dependency
            \<longrightarrow> cache_get cwd cache_dir key fs' = Inr PNone)
     \<and> (\<forall>key. \<not> depends_on cwd cache_dir fs key dependency
            \<longrightarrow> map_of (index_entries cwd cache_dir fs') key
                  = map_of (index_entries cwd cache_dir fs) key
              \<and> (\<not> shares_payload cwd cache_dir fs key dependency
                   \<longrightarrow> payload_file cwd cache_dir fs' key = payload_file cwd cache_dir fs key
                     \<and> cache_get cwd cache_dir key fs' = cache_get cwd cache_dir key fs))"
proof -
  from assms(1) obtain kvs where
    idx: "load_index cwd cache_dir fs = PDict kvs" and wf: "written_entries cache_dir kvs" and
    iw: "index_writable cwd cache_dir fs" and
    po: "\<forall>k \<in> fst ` set kvs. payload_ok cwd cache_dir fs k"
    by (auto simp: cache_wf_def)
  from wf have shape: "\<forall>(k, e) \<in> set kvs. \<exists>now ds. e = new_entry cache_dir now k ds"
    and dist: "distinct (map fst kvs)"
    by (simp_all add: written_entries_def)
  from to_invalidate_written [OF shape, of dependency] obtain keys where
    keys: "to_invalidate dependency kvs = Inr keys" and
    keys_set: "set keys = {k. \<exists>now ds. (k, new_entry cache_dir now k ds) \<in> set kvs
                      \<and> dependency \<in> set (case ds of None \<Rightarrow> [] | Some xs \<Rightarrow> xs)}"
    by blast
  have dep: "key \<in> set keys \<longleftrightarrow> depends_on cwd cache_dir fs key dependency" for key
    unfolding keys_set depends_on_def index_entries_wf [OF idx]
    using dist by auto
  from invalidate_each_wf [OF idx wf iw po assms(2), of keys] obtain fs' where
    run: "invalidate_each frames cwd cache_dir keys fs = Inr fs'" and
    idx': "load_index cwd cache_dir fs' = PDict (filter (\<lambda>(k, e). k \<notin> set keys) kvs)" and
    sd: "same_dirs fs fs'" and
    keep: "\<forall>l. resolve fs cwd (index_file cache_dir) \<noteq> Some l
            \<and> (\<forall>k \<in> set keys \<inter> fst ` set kvs. resolve fs cwd (cache_file cache_dir k) \<noteq> Some l)
          \<longrightarrow> fs' l = fs l"
    by blast
  let ?kvs' = "filter (\<lambda>(k, e). k \<notin> set keys) kvs"
  have res: "invalidate_dependent frames cwd cache_dir dependency fs = Inr fs'"
    using idx keys run by (simp add: invalidate_dependent_def)
  have gone: "cache_get cwd cache_dir key fs' = Inr PNone"
    if "depends_on cwd cache_dir fs key dependency" for key
  proof -
    from that dep have "key \<in> set keys" by simp
    then have "key \<notin> fst ` set ?kvs'" by auto
    with idx' show ?thesis by (rule cache_get_absent)
  qed
  have entry: "map_of (index_entries cwd cache_dir fs') key
      = map_of (index_entries cwd cache_dir fs) key"
    if "\<not> depends_on cwd cache_dir fs key dependency" for key
  proof -
    from that dep have out: "key \<notin> set keys" by simp
    have "map_of ?kvs' key = map_of kvs key"
      using out by (induction kvs) auto
    then show ?thesis
      by (simp add: index_entries_wf [OF idx] index_entries_wf [OF idx'])
  qed
  have kept: "payload_file cwd cache_dir fs' key = payload_file cwd cache_dir fs key
      \<and> cache_get cwd cache_dir key fs' = cache_get cwd cache_dir key fs"
    if nd: "\<not> depends_on cwd cache_dir fs key dependency"
      and ns: "\<not> shares_payload cwd cache_dir fs key dependency" for key
  proof -
    from nd dep have out: "key \<notin> set keys" by simp
    have r: "resolve fs' cwd (cache_file cache_dir key) = resolve fs cwd (cache_file cache_dir key)"
      by (rule resolve_same_dirs [OF sd])
    have same: "fs' l = fs l \<and> is_dir fs' l = is_dir fs l"
      if l: "resolve fs cwd (cache_file cache_dir key) = Some l" for l
    proof -
      have "resolve fs cwd (index_file cache_dir) \<noteq> Some l"
        using payload_not_index [OF l] by metis
      moreover have "resolve fs cwd (cache_file cache_dir k) \<noteq> Some l" if "k \<in> set keys" for k
        using that ns l dep by (auto simp: shares_payload_def)
      ultimately have "fs' l = fs l" using keep by blast
      with sd show ?thesis by (simp add: same_dirs_def)
    qed
    from out have "key \<in> fst ` set ?kvs' \<longleftrightarrow> key \<in> fst ` set kvs"
      by force
    from cache_get_same [OF idx idx' this r] same
    have "cache_get cwd cache_dir key fs' = cache_get cwd cache_dir key fs" by blast
    moreover have "payload_file cwd cache_dir fs' key = payload_file cwd cache_dir fs key"
      using r same by (auto simp: payload_file_def split: option.splits)
    ultimately show ?thesis by simp
  qed
  have "written_entries cache_dir ?kvs'"
    by (rule written_entries_filter [OF wf])
  moreover have "index_writable cwd cache_dir fs'"
    by (rule index_writable_same_dirs [OF sd iw])
  moreover have "\<forall>k \<in> fst ` set ?kvs'. payload_ok cwd cache_dir fs' k"
    using po payload_ok_same_dirs [OF sd] by auto
  ultimately have "cache_wf cwd cache_dir fs'"
    using idx' by (auto simp: cache_wf_def)
  with res gone entry kept show ?thesis by blast
qed

theorem invalidate_dependent_single_level_witness:
  "cache_wf [] ''c''
     [[''c''] \<mapsto> DirEntry,
      [''c'', ''a.cache''] \<mapsto> FileEntry (Json (PInt 1)),
      [''c'', ''b.cache''] \<mapsto> FileEntry (Json (PInt 2)),
      [''c'', ''cache_index.json'']
        \<mapsto> FileEntry (Json (PDict [(''a'', new_entry ''c'' 0 ''a'' (Some [''d''])),
                                    (''b'', new_entry ''c'' 1 ''b'' (Some [''a'']))]))]
   \<and> (3::nat) \<le> 1000
   \<and> depends_on [] ''c''
     [[''c''] \<mapsto> DirEntry,
      [''c'', ''a.cache''] \<mapsto> FileEntry (Json (PInt 1)),
      [''c'', ''b.cache''] \<mapsto> FileEntry (Json (PInt 2)),
      [''c'', ''cache_index.json'']
        \<mapsto> FileEntry (Json (PDict [(''a'', new_entry ''c'' 0 ''a'' (Some [''d''])),
                                    (''b'', new_entry ''c'' 1 ''b'' (Some [''a'']))]))]
     ''a'' ''d''
   \<and> depends_on [] ''c''
     [[''c''] \<mapsto> DirEntry,
      [''c'', ''a.cache''] \<mapsto> FileEntry (Json (PInt 1)),
      [''c'', ''b.cache''] \<mapsto> FileEntry (Json (PInt 2)),
      [''c'', ''cache_index.json'']
        \<mapsto> FileEntry (Json (PDict [(''a'', new_entry ''c'' 0 ''a'' (Some [''d''])),
                                    (''b'', new_entry ''c'' 1 ''b'' (Some [''a'']))]))]
     ''b'' ''a''
   \<and> \<not> depends_on [] ''c''
     [[''c''] \<mapsto> DirEntry,
      [''c'', ''a.cache''] \<mapsto> FileEntry (Json (PInt 1)),
      [''c'', ''b.cache''] \<mapsto> FileEntry (Json (PInt 2)),
      [''c'', ''cache_index.json'']
        \<mapsto> FileEntry (Json (PDict [(''a'', new_entry ''c'' 0 ''a'' (Some [''d''])),
                                    (''b'', new_entry ''c'' 1 ''b'' (Some [''a'']))]))]
     ''b'' ''d''
   \<and> \<not> shares_payload [] ''c''
     [[''c''] \<mapsto> DirEntry,
      [''c'', ''a.cache''] \<mapsto> FileEntry (Json (PInt 1)),
      [''c'', ''b.cache''] \<mapsto> FileEntry (Json (PInt 2)),
      [''c'', ''cache_index.json'']
        \<mapsto> FileEntry (Json (PDict [(''a'', new_entry ''c'' 0 ''a'' (Some [''d''])),
                                    (''b'', new_entry ''c'' 1 ''b'' (Some [''a'']))]))]
     ''b'' ''d''
   \<and> (\<exists>fs'. invalidate_dependent 1000 [] ''c'' ''d''
     [[''c''] \<mapsto> DirEntry,
      [''c'', ''a.cache''] \<mapsto> FileEntry (Json (PInt 1)),
      [''c'', ''b.cache''] \<mapsto> FileEntry (Json (PInt 2)),
      [''c'', ''cache_index.json'']
        \<mapsto> FileEntry (Json (PDict [(''a'', new_entry ''c'' 0 ''a'' (Some [''d''])),
                                    (''b'', new_entry ''c'' 1 ''b'' (Some [''a'']))]))] = Inr fs'
        \<and> cache_get [] ''c'' ''a'' fs' = Inr PNone
        \<and> cache_get [] ''c'' ''b'' fs' = Inr (PInt 2))"
proof -
  let ?kvs = "[(''a'', new_entry ''c'' 0 ''a'' (Some [''d''])),
               (''b'', new_entry ''c'' 1 ''b'' (Some [''a'']))]"
  let ?fs = "[[''c''] \<mapsto> DirEntry,
      [''c'', ''a.cache''] \<mapsto> FileEntry (Json (PInt 1)),
      [''c'', ''b.cache''] \<mapsto> FileEntry (Json (PInt 2)),
      [''c'', ''cache_index.json''] \<mapsto> FileEntry (Json (PDict ?kvs))]"
  have idx: "load_index [] ''c'' ?fs = PDict ?kvs"
    by (simp add: cache_eval del: split_slash.simps(2))
  have we: "written_entries ''c'' ?kvs"
    unfolding written_entries_def by auto
  have iw: "index_writable [] ''c'' ?fs"
    by (simp add: index_writable_def cache_eval del: split_slash.simps(2))
  have ra: "resolve ?fs [] (cache_file ''c'' ''a'') = Some [''c'', ''a.cache'']"
    and rb: "resolve ?fs [] (cache_file ''c'' ''b'') = Some [''c'', ''b.cache'']"
    by (simp_all add: cache_eval del: split_slash.simps(2))
  have po: "\<forall>k \<in> fst ` set ?kvs. payload_ok [] ''c'' ?fs k"
    using ra rb by (simp add: payload_ok_def is_dir_def)
  from idx we iw po have wf: "cache_wf [] ''c'' ?fs"
    unfolding cache_wf_def by blast
  have a: "depends_on [] ''c'' ?fs ''a'' ''d''"
    unfolding depends_on_def index_entries_wf [OF idx]
    by (simp, rule exI [of _ 0], rule exI [of _ "Some [''d'']"], simp)
  have b: "depends_on [] ''c'' ?fs ''b'' ''a''"
    unfolding depends_on_def index_entries_wf [OF idx]
    by (simp, rule exI [of _ 1], rule exI [of _ "Some [''a'']"], simp)
  have only_a: "k = ''a''" if "depends_on [] ''c'' ?fs k ''d''" for k
    using that unfolding depends_on_def index_entries_wf [OF idx]
    by (auto simp: new_entry_def split: option.splits if_splits)
  then have nb: "\<not> depends_on [] ''c'' ?fs ''b'' ''d''"
    by fastforce
  have ns: "\<not> shares_payload [] ''c'' ?fs ''b'' ''d''"
  proof
    assume "shares_payload [] ''c'' ?fs ''b'' ''d''"
    then obtain k l where k: "depends_on [] ''c'' ?fs k ''d''"
      and l: "resolve ?fs [] (cache_file ''c'' k) = Some l"
         "resolve ?fs [] (cache_file ''c'' ''b'') = Some l"
      unfolding shares_payload_def by blast
    from only_a [OF k] l(1) ra have "l = [''c'', ''a.cache'']" by simp
    moreover from l(2) rb have "l = [''c'', ''b.cache'']" by simp
    ultimately show False by simp
  qed
  have gb: "cache_get [] ''c'' ''b'' ?fs = Inr (PInt 2)"
    by (simp add: cache_eval del: split_slash.simps(2))
  have fr: "(3::nat) \<le> 1000" by simp
  from invalidate_dependent_single_level [OF wf fr, of "''d''"] a nb ns gb
  have "\<exists>fs'. invalidate_dependent 1000 [] ''c'' ''d'' ?fs = Inr fs'
        \<and> cache_get [] ''c'' ''a'' fs' = Inr PNone
        \<and> cache_get [] ''c'' ''b'' fs' = Inr (PInt 2)"
    by metis
  with wf fr a b nb ns show ?thesis by blast
qed

text \<open>
  Claim C8 at an index file that holds JSON which is not an object: with \<^verbatim>\<open>null\<close> or a
  number \<^verbatim>\<open>key in index\<close> raises \<^verbatim>\<open>TypeError\<close>, and with a list that holds the key the
  payload is served although the index has no entry. (For an index or a payload that is
  missing, unreadable or not JSON, \<open>cache_get_unusable_index\<close> and
  \<open>cache_get_unusable_payload\<close> show the result absent.)
\<close>

theorem cache_get_non_object_index:
  "cache_get [] ''c'' ''k''
      [[''c''] \<mapsto> DirEntry, [''c'', ''cache_index.json''] \<mapsto> FileEntry (Json PNone)]
     = Inl TypeError
   \<and> cache_get [] ''c'' ''k''
      [[''c''] \<mapsto> DirEntry, [''c'', ''cache_index.json''] \<mapsto> FileEntry (Json (PInt 5))]
     = Inl TypeError
   \<and> cache_get [] ''c'' ''k''
      [[''c''] \<mapsto> DirEntry,
       [''c'', ''cache_index.json''] \<mapsto> FileEntry (Json (PList [PStr ''k''])),
       [''c'', ''k.cache''] \<mapsto> FileEntry (Json (PInt 1))]
     = Inr (PInt 1)"
  by (simp add: cache_eval del: split_slash.simps(2))

section \<open>Fingerprint engine (\<^verbatim>\<open>IntelligentAnalyzer._compute_file_signatures\<close>)\<close>

text \<open>
  The project directory is a tree: a directory lists its entries in the order the
  operating system enumerates them, a file is its bytes, or \<open>None\<close> when \<^verbatim>\<open>stat\<close> or
  \<^verbatim>\<open>read_bytes\<close> raises (the \<^verbatim>\<open>except Exception\<close> of the source skips it). \<^verbatim>\<open>os.walk\<close>
  runs top-down: the loop body sees the files of a directory, after
  \<^verbatim>\<open>dirs[:] = [d for d in dirs if d not in {...}]\<close> has pruned the directories it will
  not enter, and then the remaining subdirectories are walked in order. The key of a file
  is \<^verbatim>\<open>str(file_path.relative_to(root_path))\<close>, its path components joined by a slash.
  \<^verbatim>\<open>hashlib.sha256(content).hexdigest()\<close> is the parameter \<open>sha256_hex\<close>; the resulting dict
  is a map, equal to another when they hold the same keys with the same values.
\<close>

type_synonym bytes = "8 word list"

datatype fsnode = File "bytes option" | Dir "(string \<times> fsnode) list"

type_synonym signatures = "string \<rightharpoonup> string"

definition skipped_dirs :: "string set" where
  "skipped_dirs = {''.git'', ''node_modules'', ''__pycache__''}"

fun join_path :: "string list \<Rightarrow> string" where
  "join_path [] = ''.''"
| "join_path [c] = c"
| "join_path (c # cs) = c @ ''/'' @ join_path cs"

fun sign_file :: "(bytes \<Rightarrow> string) \<Rightarrow> string \<Rightarrow> bytes option \<Rightarrow> signatures \<Rightarrow> signatures" where
  "sign_file sha256_hex rel_path None signatures = signatures"
| "sign_file sha256_hex rel_path (Some content) signatures =
     (if length content < 10000000
      then signatures(rel_path \<mapsto> take 16 (sha256_hex content))
      else signatures)"

fun sign_files ::
  "(bytes \<Rightarrow> string) \<Rightarrow> string list \<Rightarrow> (string \<times> fsnode) list \<Rightarrow> signatures \<Rightarrow> signatures" where
  "sign_files sha256_hex rel_dir [] signatures = signatures"
| "sign_files sha256_hex rel_dir ((name, File content) # entries) signatures =
     sign_files sha256_hex rel_dir entries
       (sign_file sha256_hex (join_path (rel_dir @ [name])) content signatures)"
| "sign_files sha256_hex rel_dir ((name, Dir sub) # entries) signatures =
     sign_files sha256_hex rel_dir entries signatures"

fun walk ::
  "(bytes \<Rightarrow> string) \<Rightarrow> string list \<Rightarrow> (string \<times> fsnode) list \<Rightarrow> signatures \<Rightarrow> signatures"
  and walk_dirs ::
  "(bytes \<Rightarrow> string) \<Rightarrow> string list \<Rightarrow> (string \<times> fsnode) list \<Rightarrow> signatures \<Rightarrow> signatures" where
  "walk sha256_hex rel_dir entries signatures =
     walk_dirs sha256_hex rel_dir entries (sign_files sha256_hex rel_dir entries signatures)"
| "walk_dirs sha256_hex rel_dir [] signatures = signatures"
| "walk_dirs sha256_hex rel_dir ((name, File content) # entries) signatures =
     walk_dirs sha256_hex rel_dir entries signatures"
| "walk_dirs sha256_hex rel_dir ((name, Dir sub) # entries) signatures =
     (if name \<in> skipped_dirs then walk_dirs sha256_hex rel_dir entries signatures
      else walk_dirs sha256_hex rel_dir entries
             (walk sha256_hex (rel_dir @ [name]) sub signatures))"

definition compute_file_signatures :: "(bytes \<Rightarrow> string) \<Rightarrow> (string \<times> fsnode) list \<Rightarrow> signatures" where
  "compute_file_signatures sha256_hex tree = walk sha256_hex [] tree Map.empty"

section \<open>Properties of the fingerprint engine\<close>

text \<open>
  \<open>tree_files\<close> is the content of a tree without any order: the set of all files with
  their component paths. A path is \<open>kept\<close> when none of its directories is pruned. In a
  \<open>valid_tree\<close> the names of a directory are distinct, non-empty and without a slash, as
  in any file system. \<open>walked\<close> lists the files in the order the walk reaches them.
\<close>

fun node_files :: "fsnode \<Rightarrow> (string list \<times> bytes option) set" where
  "node_files (File content) = {([], content)}"
| "node_files (Dir entries) = (\<Union>(name, x) \<in> set entries. (\<lambda>(p, c). (name # p, c)) ` node_files x)"

definition tree_files :: "(string \<times> fsnode) list \<Rightarrow> (string list \<times> bytes option) set" where
  "tree_files tree = node_files (Dir tree)"

definition kept :: "string list \<Rightarrow> bool" where
  "kept p = (set (butlast p) \<inter> skipped_dirs = {})"

definition valid_name :: "string \<Rightarrow> bool" where
  "valid_name name = (name \<noteq> [] \<and> CHR ''/'' \<notin> set name)"

fun valid_node :: "fsnode \<Rightarrow> bool" where
  "valid_node (File content) = True"
| "valid_node (Dir entries) =
     (distinct (map fst entries) \<and> (\<forall>(name, x) \<in> set entries. valid_name name \<and> valid_node x))"

definition valid_tree :: "(string \<times> fsnode) list \<Rightarrow> bool" where
  "valid_tree tree = valid_node (Dir tree)"

fun files_here :: "string list \<Rightarrow> (string \<times> fsnode) list \<Rightarrow> (string list \<times> bytes option) list" where
  "files_here rel_dir [] = []"
| "files_here rel_dir ((name, File content) # entries) =
     (rel_dir @ [name], content) # files_here rel_dir entries"
| "files_here rel_dir ((name, Dir sub) # entries) = files_here rel_dir entries"

fun walked :: "string list \<Rightarrow> (string \<times> fsnode) list \<Rightarrow> (string list \<times> bytes option) list"
  and walked_dirs :: "string list \<Rightarrow> (string \<times> fsnode) list \<Rightarrow> (string list \<times> bytes option) list" where
  "walked rel_dir entries = files_here rel_dir entries @ walked_dirs rel_dir entries"
| "walked_dirs rel_dir [] = []"
| "walked_dirs rel_dir ((name, File content) # entries) = walked_dirs rel_dir entries"
| "walked_dirs rel_dir ((name, Dir sub) # entries) =
     (if name \<in> skipped_dirs then walked_dirs rel_dir entries
      else walked (rel_dir @ [name]) sub @ walked_dirs rel_dir entries)"

declare walked.simps(1) [simp del]

definition sign :: "(bytes \<Rightarrow> string) \<Rightarrow> string list \<times> bytes option \<Rightarrow> signatures \<Rightarrow> signatures" where
  "sign sha256_hex f = sign_file sha256_hex (join_path (fst f)) (snd f)"

lemma sign_files_fold:
  "sign_files H rel_dir entries s = fold (sign H) (files_here rel_dir entries) s"
  by (induction H rel_dir entries s rule: sign_files.induct) (simp_all add: sign_def)

lemma walk_fold:
  "walk H rel_dir entries s = fold (sign H) (walked rel_dir entries) s"
  "walk_dirs H rel_dir entries s = fold (sign H) (walked_dirs rel_dir entries) s"
  by (induction H rel_dir entries s and H rel_dir entries s rule: walk_walk_dirs.induct)
    (simp_all add: sign_files_fold walked.simps(1))

definition digest_of :: "(bytes \<Rightarrow> string) \<Rightarrow> bytes option \<Rightarrow> string option" where
  "digest_of sha256_hex content =
     (case content of
        None \<Rightarrow> None
      | Some bs \<Rightarrow> if length bs < 10000000 then Some (take 16 (sha256_hex bs)) else None)"

lemma sign_file_apply:
  "sign_file H rel_path content s k
     = (if k = rel_path then (case digest_of H content of None \<Rightarrow> s k | Some d \<Rightarrow> Some d) else s k)"
  by (cases content) (simp_all add: digest_of_def)

lemma fold_sign_other:
  "k \<notin> join_path ` fst ` set fl \<Longrightarrow> fold (sign H) fl s k = s k"
  by (induction fl arbitrary: s) (auto simp: sign_def sign_file_apply)

lemma fold_sign_member:
  assumes "distinct (map (\<lambda>f. join_path (fst f)) fl)" "(p, content) \<in> set fl"
  shows "fold (sign H) fl s (join_path p)
     = (case digest_of H content of None \<Rightarrow> s (join_path p) | Some d \<Rightarrow> Some d)"
  using assms
proof (induction fl arbitrary: s)
  case Nil
  then show ?case by simp
next
  case (Cons f fl)
  show ?case
  proof (cases "f = (p, content)")
    case True
    with Cons.prems(1) have "join_path p \<notin> join_path ` fst ` set fl"
      by (auto simp: image_iff)
    then have "fold (sign H) fl (sign H f s) (join_path p) = sign H f s (join_path p)"
      by (rule fold_sign_other)
    moreover have "sign H f s (join_path p)
        = (case digest_of H content of None \<Rightarrow> s (join_path p) | Some d \<Rightarrow> Some d)"
      using True by (simp add: sign_def sign_file_apply)
    ultimately show ?thesis
      by (simp del: fold_simps add: fold_simps(2) [of "sign H" f fl])
  next
    case False
    with Cons.prems have in_rest: "(p, content) \<in> set fl" and d: "distinct (map (\<lambda>f. join_path (fst f)) fl)"
      and ne: "join_path (fst f) \<noteq> join_path p"
      by (auto simp: image_iff)
    have "sign H f s (join_path p) = s (join_path p)"
      using ne by (simp add: sign_def sign_file_apply)
    with Cons.IH [OF d in_rest, of "sign H f s"] show ?thesis
      by (simp split: option.splits)
  qed
qed

lemma split_at_slash:
  assumes "CHR ''/'' \<notin> set c" "CHR ''/'' \<notin> set d" "c @ CHR ''/'' # x = d @ CHR ''/'' # y"
  shows "c = d \<and> x = y"
  using assms
proof (induction c arbitrary: d)
  case Nil
  then show ?case by (cases d) auto
next
  case (Cons a c)
  then show ?case by (cases d) auto
qed

lemma join_path_Cons:
  "cs \<noteq> [] \<Longrightarrow> join_path (c # cs) = c @ CHR ''/'' # join_path cs"
  by (cases cs) simp_all

lemma join_path_inj:
  assumes "cs \<noteq> []" "ds \<noteq> []"
    and "\<forall>c \<in> set cs. CHR ''/'' \<notin> set c" "\<forall>d \<in> set ds. CHR ''/'' \<notin> set d"
    and "join_path cs = join_path ds"
  shows "cs = ds"
  using assms
proof (induction cs arbitrary: ds)
  case Nil
  then show ?case by simp
next
  case (Cons c cs)
  from Cons.prems(2) obtain d ds' where ds: "ds = d # ds'" by (cases ds) auto
  show ?case
  proof (cases "cs = []")
    case True
    note cs = this
    show ?thesis
    proof (cases "ds' = []")
      case True
      with cs ds Cons.prems(5) show ?thesis by simp
    next
      case False
      with cs ds Cons.prems(5) have "c = d @ CHR ''/'' # join_path ds'"
        by (simp add: join_path_Cons)
      with Cons.prems(3) show ?thesis by auto
    qed
  next
    case False
    note cs = this
    show ?thesis
    proof (cases "ds' = []")
      case True
      with cs ds Cons.prems(5) have "d = c @ CHR ''/'' # join_path cs"
        by (simp add: join_path_Cons)
      with Cons.prems(4) ds show ?thesis by auto
    next
      case False
      with cs ds Cons.prems(5) have "c @ CHR ''/'' # join_path cs = d @ CHR ''/'' # join_path ds'"
        by (simp add: join_path_Cons)
      with Cons.prems(3,4) ds have "c = d" "join_path cs = join_path ds'"
        using split_at_slash [of c d "join_path cs" "join_path ds'"] by auto
      moreover from Cons.IH [OF cs False _ _ this(2)] Cons.prems(3,4) ds have "cs = ds'"
        by auto
      ultimately show ?thesis using ds by simp
    qed
  qed
qed

lemma node_files_valid:
  "valid_node x \<Longrightarrow> (p, c) \<in> node_files x \<Longrightarrow> \<forall>n \<in> set p. valid_name n"
proof (induction x arbitrary: p)
  case (File content)
  then show ?case by simp
next
  case (Dir entries)
  from Dir.prems(2) obtain name y q where
    e: "(name, y) \<in> set entries" and q: "(q, c) \<in> node_files y" and p: "p = name # q"
    by auto
  from Dir.prems(1) e have v: "valid_name name" "valid_node y"
    by auto
  have "y \<in> Basic_BNFs.snds (name, y)" by simp
  from Dir.IH [OF e this v(2) q] v(1) p show ?case
    by simp
qed

lemma node_files_Dir_nonempty: "(p, c) \<in> node_files (Dir entries) \<Longrightarrow> p \<noteq> []"
  by auto

lemma set_files_here:
  "set (files_here rel_dir entries) = {(rel_dir @ [name], c) | name c. (name, File c) \<in> set entries}"
  by (induction rel_dir entries rule: files_here.induct) auto

lemma kept_single: "kept [name]"
  by (simp add: kept_def)

lemma kept_Cons: "p \<noteq> [] \<Longrightarrow> kept (name # p) \<longleftrightarrow> name \<notin> skipped_dirs \<and> kept p"
  by (auto simp: kept_def)

lemma node_files_Dir_iff:
  "(p, c) \<in> node_files (Dir entries) \<longleftrightarrow>
     (\<exists>name x q. (name, x) \<in> set entries \<and> (q, c) \<in> node_files x \<and> p = name # q)"
proof
  assume "(p, c) \<in> node_files (Dir entries)"
  then obtain e where e: "e \<in> set entries" and
    m: "(p, c) \<in> (\<lambda>(q, c). (fst e # q, c)) ` node_files (snd e)"
    by (auto simp: case_prod_unfold)
  from m obtain q where "(q, c) \<in> node_files (snd e)" "p = fst e # q"
    by (auto simp: case_prod_unfold)
  with e show "\<exists>name x q. (name, x) \<in> set entries \<and> (q, c) \<in> node_files x \<and> p = name # q"
    by (intro exI [of _ "fst e"] exI [of _ "snd e"] exI [of _ q]) simp
next
  assume "\<exists>name x q. (name, x) \<in> set entries \<and> (q, c) \<in> node_files x \<and> p = name # q"
  then obtain name x q where "(name, x) \<in> set entries" "(q, c) \<in> node_files x" "p = name # q"
    by blast
  then show "(p, c) \<in> node_files (Dir entries)"
    by (simp, intro bexI [of _ "(name, x)"]) (simp_all add: image_iff, force)
qed

lemma kept_files_Dir_iff:
  "(p, c) \<in> node_files (Dir entries) \<and> kept p \<longleftrightarrow>
     (\<exists>name. p = [name] \<and> (name, File c) \<in> set entries)
     \<or> (\<exists>name sub q. p = name # q \<and> (name, Dir sub) \<in> set entries \<and> name \<notin> skipped_dirs
           \<and> (q, c) \<in> node_files (Dir sub) \<and> kept q)"
  (is "?L \<longleftrightarrow> ?A \<or> ?B")
proof
  assume ?L
  then obtain name x q where
    e: "(name, x) \<in> set entries" and q: "(q, c) \<in> node_files x" and p: "p = name # q"
    and k: "kept p"
    unfolding node_files_Dir_iff by blast
  show "?A \<or> ?B"
  proof (cases x)
    case (File content)
    with e q p show ?thesis by auto
  next
    case (Dir sub)
    with q have "q \<noteq> []" by auto
    with k p have "name \<notin> skipped_dirs" "kept q"
      by (simp_all add: kept_Cons)
    with e q p Dir show ?thesis by blast
  qed
next
  assume "?A \<or> ?B"
  then show ?L
  proof
    assume ?A
    then obtain name where "p = [name]" "(name, File c) \<in> set entries" by blast
    then show ?L
      unfolding node_files_Dir_iff by (force simp: kept_single)
  next
    assume ?B
    then obtain name sub q where
      b: "p = name # q" "(name, Dir sub) \<in> set entries" "name \<notin> skipped_dirs"
      "(q, c) \<in> node_files (Dir sub)" "kept q"
      by blast
    from b(4) have "q \<noteq> []" by auto
    with b(1,3,5) have "kept p" by (simp add: kept_Cons)
    moreover from b(1,2,4) have "(p, c) \<in> node_files (Dir entries)"
      unfolding node_files_Dir_iff [of p] by blast
    ultimately show ?L by blast
  qed
qed

lemma set_walked:
  "(r, c) \<in> set (walked rel_dir entries) \<longleftrightarrow>
     (\<exists>p. r = rel_dir @ p \<and> (p, c) \<in> node_files (Dir entries) \<and> kept p)"
  "(r, c) \<in> set (walked_dirs rel_dir entries) \<longleftrightarrow>
     (\<exists>name sub q. r = rel_dir @ name # q \<and> (name, Dir sub) \<in> set entries
        \<and> name \<notin> skipped_dirs \<and> (q, c) \<in> node_files (Dir sub) \<and> kept q)"
proof (induction rel_dir entries and rel_dir entries arbitrary: r and r rule: walked_walked_dirs.induct)
  case (1 rel_dir entries)
  have "(r, c) \<in> set (walked rel_dir entries) \<longleftrightarrow>
      (r, c) \<in> set (files_here rel_dir entries) \<or> (r, c) \<in> set (walked_dirs rel_dir entries)"
    by (simp add: walked.simps(1))
  also have "\<dots> \<longleftrightarrow>
      (\<exists>name. r = rel_dir @ [name] \<and> (name, File c) \<in> set entries)
      \<or> (\<exists>name sub q. r = rel_dir @ name # q \<and> (name, Dir sub) \<in> set entries
            \<and> name \<notin> skipped_dirs \<and> (q, c) \<in> node_files (Dir sub) \<and> kept q)"
    unfolding "1.IH" [of r] set_files_here by blast
  also have "\<dots> \<longleftrightarrow> (\<exists>p. r = rel_dir @ p \<and> ((p, c) \<in> node_files (Dir entries) \<and> kept p))"
    (is "?A \<or> ?B \<longleftrightarrow> ?C")
  proof
    assume "?A \<or> ?B"
    then show ?C
    proof
      assume ?A
      then obtain name where n: "r = rel_dir @ [name]" "(name, File c) \<in> set entries"
        by blast
      from n(2) have "(([name], c) \<in> node_files (Dir entries) \<and> kept [name])"
        by (subst kept_files_Dir_iff) blast
      with n(1) show ?C by blast
    next
      assume ?B
      then obtain name sub q where b: "r = rel_dir @ name # q" "(name, Dir sub) \<in> set entries"
        "name \<notin> skipped_dirs" "(q, c) \<in> node_files (Dir sub)" "kept q"
        by blast
      from b(2-5) have "((name # q, c) \<in> node_files (Dir entries) \<and> kept (name # q))"
        by (subst kept_files_Dir_iff) blast
      with b(1) show ?C by blast
    qed
  next
    assume ?C
    then obtain p where p: "r = rel_dir @ p" "(p, c) \<in> node_files (Dir entries) \<and> kept p"
      by blast
    from p(2) have "(\<exists>name. p = [name] \<and> (name, File c) \<in> set entries)
       \<or> (\<exists>name sub q. p = name # q \<and> (name, Dir sub) \<in> set entries \<and> name \<notin> skipped_dirs
           \<and> (q, c) \<in> node_files (Dir sub) \<and> kept q)"
      by (subst (asm) kept_files_Dir_iff)
    with p(1) show "?A \<or> ?B" by blast
  qed
  finally show ?case by blast
next
  case (2 rel_dir)
  show ?case by simp
next
  case (3 rel_dir name content entries)
  have "(r, c) \<in> set (walked_dirs rel_dir ((name, File content) # entries)) \<longleftrightarrow>
      (r, c) \<in> set (walked_dirs rel_dir entries)"
    by simp
  also note "3.IH" [of r]
  also have "(\<exists>name' sub q. r = rel_dir @ name' # q \<and> (name', Dir sub) \<in> set entries
        \<and> name' \<notin> skipped_dirs \<and> (q, c) \<in> node_files (Dir sub) \<and> kept q) \<longleftrightarrow>
      (\<exists>name' sub q. r = rel_dir @ name' # q \<and> (name', Dir sub) \<in> set ((name, File content) # entries)
        \<and> name' \<notin> skipped_dirs \<and> (q, c) \<in> node_files (Dir sub) \<and> kept q)"
    by (simp del: node_files.simps)
  finally show ?case .
next
  case (4 rel_dir name sub entries)
  let ?rest = "\<exists>name' sub' q. r = rel_dir @ name' # q \<and> (name', Dir sub') \<in> set entries
        \<and> name' \<notin> skipped_dirs \<and> (q, c) \<in> node_files (Dir sub') \<and> kept q"
  let ?all = "\<exists>name' sub' q. r = rel_dir @ name' # q
        \<and> (name', Dir sub') \<in> set ((name, Dir sub) # entries)
        \<and> name' \<notin> skipped_dirs \<and> (q, c) \<in> node_files (Dir sub') \<and> kept q"
  show ?case
  proof (cases "name \<in> skipped_dirs")
    case True
    then have "(r, c) \<in> set (walked_dirs rel_dir ((name, Dir sub) # entries)) \<longleftrightarrow>
        (r, c) \<in> set (walked_dirs rel_dir entries)"
      by simp
    also from "4.IH"(1) [OF True, of r] have "\<dots> \<longleftrightarrow> ?rest" .
    also from True have "?rest \<longleftrightarrow> ?all"
      by (simp del: node_files.simps) blast
    finally show ?thesis .
  next
    case False
    have "(r, c) \<in> set (walked_dirs rel_dir ((name, Dir sub) # entries)) \<longleftrightarrow>
        (r, c) \<in> set (walked (rel_dir @ [name]) sub) \<or> (r, c) \<in> set (walked_dirs rel_dir entries)"
      using False by simp
    also have "\<dots> \<longleftrightarrow>
        (\<exists>q. r = rel_dir @ name # q \<and> (q, c) \<in> node_files (Dir sub) \<and> kept q) \<or> ?rest"
      unfolding "4.IH"(2) [OF False, of r] "4.IH"(3) [OF False, of r] by simp
    also have "\<dots> \<longleftrightarrow> ?all"
      using False by (simp del: node_files.simps) blast
    finally show ?thesis .
  qed
qed

lemma valid_node_Cons:
  "valid_node (Dir ((name, x) # entries)) \<longleftrightarrow>
     name \<notin> fst ` set entries \<and> valid_name name \<and> valid_node x \<and> valid_node (Dir entries)"
  by auto

lemma distinct_files_here:
  "distinct (map fst entries) \<Longrightarrow> distinct (map fst (files_here rel_dir entries))"
proof (induction rel_dir entries rule: files_here.induct)
  case (1 rel_dir)
  then show ?case by simp
next
  case (2 rel_dir name content entries)
  have "rel_dir @ [name] \<notin> fst ` set (files_here rel_dir entries)"
  proof
    assume "rel_dir @ [name] \<in> fst ` set (files_here rel_dir entries)"
    then obtain c where "(rel_dir @ [name], c) \<in> set (files_here rel_dir entries)"
      by auto
    then have "(name, File c) \<in> set entries"
      by (auto simp: set_files_here)
    then have "name \<in> fst ` set entries" by force
    with "2.prems" show False by simp
  qed
  with 2 show ?case by simp
next
  case (3 rel_dir name sub entries)
  then show ?case by simp
qed

lemma walked_dirs_path:
  assumes "r \<in> fst ` set (walked_dirs rel_dir entries)"
  shows "\<exists>name q. r = rel_dir @ name # q \<and> q \<noteq> [] \<and> name \<in> fst ` set entries"
proof -
  from assms obtain c where "(r, c) \<in> set (walked_dirs rel_dir entries)" by auto
  then obtain name sub q where
    "r = rel_dir @ name # q" "(name, Dir sub) \<in> set entries" "(q, c) \<in> node_files (Dir sub)"
    unfolding set_walked by blast
  moreover from this(3) have "q \<noteq> []" by auto
  moreover from calculation(2) have "name \<in> fst ` set entries" by force
  ultimately show ?thesis by blast
qed

lemma walked_path:
  assumes "r \<in> fst ` set (walked rel_dir entries)"
  shows "\<exists>p. r = rel_dir @ p \<and> p \<noteq> []"
proof -
  from assms obtain c where "(r, c) \<in> set (walked rel_dir entries)" by auto
  then obtain p where "r = rel_dir @ p" "(p, c) \<in> node_files (Dir entries)"
    unfolding set_walked by blast
  moreover from this(2) have "p \<noteq> []" by auto
  ultimately show ?thesis by blast
qed

lemma files_here_path:
  assumes "r \<in> fst ` set (files_here rel_dir entries)"
  shows "\<exists>name. r = rel_dir @ [name]"
  using assms by (auto simp: set_files_here)

lemma distinct_walked:
  "valid_node (Dir entries) \<Longrightarrow> distinct (map fst (walked rel_dir entries))"
  "valid_node (Dir entries) \<Longrightarrow> distinct (map fst (walked_dirs rel_dir entries))"
proof (induction rel_dir entries and rel_dir entries rule: walked_walked_dirs.induct)
  case (1 rel_dir entries)
  from "1.prems" have "distinct (map fst (files_here rel_dir entries))"
    by (simp add: distinct_files_here)
  moreover from 1 have "distinct (map fst (walked_dirs rel_dir entries))"
    by blast
  moreover have "fst ` set (files_here rel_dir entries) \<inter> fst ` set (walked_dirs rel_dir entries) = {}"
  proof (rule ccontr)
    assume "\<not> ?thesis"
    then obtain r where "r \<in> fst ` set (files_here rel_dir entries)"
      "r \<in> fst ` set (walked_dirs rel_dir entries)"
      by blast
    with files_here_path [of r rel_dir entries] walked_dirs_path [of r rel_dir entries]
    show False by auto
  qed
  ultimately show ?case by (simp add: walked.simps(1))
next
  case (2 rel_dir)
  then show ?case by simp
next
  case (3 rel_dir name content entries)
  from "3.prems" have "valid_node (Dir entries)"
    unfolding valid_node_Cons by blast
  with "3.IH" show ?case by simp
next
  case (4 rel_dir name sub entries)
  from "4.prems" have v: "name \<notin> fst ` set entries" "valid_node (Dir sub)" "valid_node (Dir entries)"
    unfolding valid_node_Cons by blast+
  show ?case
  proof (cases "name \<in> skipped_dirs")
    case True
    with "4.IH"(1) v(3) show ?thesis by simp
  next
    case False
    from "4.IH"(2) [OF False v(2)] have d1: "distinct (map fst (walked (rel_dir @ [name]) sub))" .
    from "4.IH"(3) [OF False v(3)] have d2: "distinct (map fst (walked_dirs rel_dir entries))" .
    have "fst ` set (walked (rel_dir @ [name]) sub) \<inter> fst ` set (walked_dirs rel_dir entries) = {}"
    proof (rule ccontr)
      assume "\<not> ?thesis"
      then obtain r where r: "r \<in> fst ` set (walked (rel_dir @ [name]) sub)"
        "r \<in> fst ` set (walked_dirs rel_dir entries)"
        by blast
      from walked_path [OF r(1)] obtain p where "r = rel_dir @ name # p" by auto
      moreover from walked_dirs_path [OF r(2)] obtain name' q where
        "r = rel_dir @ name' # q" "name' \<in> fst ` set entries"
        by blast
      ultimately show False using v(1) by auto
    qed
    with d1 d2 False show ?thesis
      by simp
  qed
qed

lemma walked_names_valid:
  assumes "valid_node (Dir entries)" "(p, c) \<in> set (walked [] entries)"
  shows "p \<noteq> [] \<and> (\<forall>n \<in> set p. CHR ''/'' \<notin> set n)"
proof -
  from assms(2) have p: "(p, c) \<in> node_files (Dir entries)"
    unfolding set_walked by simp
  from node_files_valid [OF assms(1) p] have "\<forall>n \<in> set p. CHR ''/'' \<notin> set n"
    by (simp add: valid_name_def)
  moreover from p have "p \<noteq> []" by auto
  ultimately show ?thesis by blast
qed

lemma distinct_walked_paths:
  assumes "valid_tree tree"
  shows "distinct (map (\<lambda>f. join_path (fst f)) (walked [] tree))"
proof -
  from assms have v: "valid_node (Dir tree)" by (simp add: valid_tree_def)
  have "inj_on join_path (fst ` set (walked [] tree))"
  proof (rule inj_onI)
    fix p q assume "p \<in> fst ` set (walked [] tree)" "q \<in> fst ` set (walked [] tree)"
      and eq: "join_path p = join_path q"
    then obtain c d where "(p, c) \<in> set (walked [] tree)" "(q, d) \<in> set (walked [] tree)"
      by auto
    with walked_names_valid [OF v] have
      "p \<noteq> []" "q \<noteq> []" "\<forall>n \<in> set p. CHR ''/'' \<notin> set n" "\<forall>n \<in> set q. CHR ''/'' \<notin> set n"
      by blast+
    then show "p = q" using eq by (rule join_path_inj)
  qed
  moreover from distinct_walked(1) [OF v] have "distinct (map fst (walked [] tree))" .
  ultimately have "distinct (map join_path (map fst (walked [] tree)))"
    by (subst distinct_map) simp
  then show ?thesis by (simp add: comp_def)
qed

lemma walked_iff_kept:
  "(p, c) \<in> set (walked [] tree) \<longleftrightarrow> (p, c) \<in> tree_files tree \<and> kept p"
  unfolding set_walked tree_files_def by simp

lemma compute_fold:
  "compute_file_signatures H tree = fold (sign H) (walked [] tree) Map.empty"
  by (simp only: compute_file_signatures_def walk_fold)

lemma signature_of_walked:
  assumes "valid_tree tree" "(p, c) \<in> set (walked [] tree)"
  shows "compute_file_signatures H tree (join_path p) = digest_of H c"
proof -
  from fold_sign_member [OF distinct_walked_paths [OF assms(1)] assms(2), of H Map.empty]
  show ?thesis
    by (simp add: compute_fold split: option.splits)
qed

lemma signature_elsewhere:
  assumes "k \<notin> join_path ` fst ` set (walked [] tree)"
  shows "compute_file_signatures H tree k = None"
  using fold_sign_other [OF assms, of H Map.empty] by (simp add: compute_fold)

lemma signature_at:
  assumes v: "valid_tree tree" and f: "(p, c) \<in> tree_files tree"
  shows "compute_file_signatures H tree (join_path p) = (if kept p then digest_of H c else None)"
proof (cases "kept p")
  case True
  with f have "(p, c) \<in> set (walked [] tree)" by (simp add: walked_iff_kept)
  from signature_of_walked [OF v this] True show ?thesis by simp
next
  case False
  from v have vn: "valid_node (Dir tree)" by (simp add: valid_tree_def)
  from f have pf: "(p, c) \<in> node_files (Dir tree)" by (simp add: tree_files_def)
  from node_files_valid [OF vn pf] have pv: "\<forall>n \<in> set p. CHR ''/'' \<notin> set n"
    by (simp add: valid_name_def)
  from pf have pn: "p \<noteq> []" by auto
  have "join_path p \<notin> join_path ` fst ` set (walked [] tree)"
  proof
    assume "join_path p \<in> join_path ` fst ` set (walked [] tree)"
    then obtain q d where q: "(q, d) \<in> set (walked [] tree)" "join_path p = join_path q"
      by auto
    from walked_names_valid [OF vn q(1)] have "q \<noteq> []" "\<forall>n \<in> set q. CHR ''/'' \<notin> set n"
      by blast+
    with pn pv q(2) have "p = q" by (intro join_path_inj)
    with q(1) have "kept p" by (simp add: walked_iff_kept)
    with False show False by simp
  qed
  from signature_elsewhere [OF this] False show ?thesis by simp
qed

lemma signature_source:
  assumes v: "valid_tree tree" and s: "compute_file_signatures H tree k = Some d"
  shows "\<exists>p content. (p, Some content) \<in> tree_files tree \<and> kept p \<and> k = join_path p
     \<and> length content < 10000000 \<and> d = take 16 (H content)"
proof -
  have "k \<in> join_path ` fst ` set (walked [] tree)"
  proof (rule ccontr)
    assume "k \<notin> join_path ` fst ` set (walked [] tree)"
    from signature_elsewhere [OF this, of H] s show False by simp
  qed
  then obtain p c where pc: "(p, c) \<in> set (walked [] tree)" "k = join_path p"
    by auto
  from signature_of_walked [OF v pc(1), of H] s pc(2) have dg: "digest_of H c = Some d"
    by simp
  then obtain content where "c = Some content" "length content < 10000000" "d = take 16 (H content)"
    by (auto simp: digest_of_def split: option.splits if_splits)
  with pc show ?thesis
    by (auto simp: walked_iff_kept)
qed

section \<open>Claims about the fingerprint engine\<close>

text \<open>
  Claim C3. Two trees that hold the same files with the same bytes at the same paths,
  whatever the order in which their directories list the entries, get the same
  path-to-digest mapping.
\<close>

theorem signatures_order_independent:
  assumes "valid_tree tree1" "valid_tree tree2" "tree_files tree1 = tree_files tree2"
  shows "compute_file_signatures H tree1 = compute_file_signatures H tree2"
proof (rule ext)
  fix k
  from assms(3) have same: "set (walked [] tree1) = set (walked [] tree2)"
    by (auto simp: walked_iff_kept)
  show "compute_file_signatures H tree1 k = compute_file_signatures H tree2 k"
  proof (cases "k \<in> join_path ` fst ` set (walked [] tree1)")
    case True
    then obtain p c where pc: "(p, c) \<in> set (walked [] tree1)" "k = join_path p"
      by auto
    from pc(1) same have "(p, c) \<in> set (walked [] tree2)" by simp
    from signature_of_walked [OF assms(1) pc(1), of H] signature_of_walked [OF assms(2) this, of H] pc(2)
    show ?thesis by simp
  next
    case False
    with same have "k \<notin> join_path ` fst ` set (walked [] tree2)" by simp
    from signature_elsewhere [OF False, of H] signature_elsewhere [OF this, of H]
    show ?thesis by simp
  qed
qed

theorem signatures_order_independent_witness:
  "valid_tree [(''a.txt'', File (Some [1, 2])),
               (''src'', Dir [(''b.py'', File (Some [3])), (''c.bin'', File None)]),
               (''.git'', Dir [(''HEAD'', File (Some [4]))])]
   \<and> valid_tree [(''.git'', Dir [(''HEAD'', File (Some [4]))]),
                 (''src'', Dir [(''c.bin'', File None), (''b.py'', File (Some [3]))]),
                 (''a.txt'', File (Some [1, 2]))]
   \<and> tree_files [(''a.txt'', File (Some [1, 2])),
                 (''src'', Dir [(''b.py'', File (Some [3])), (''c.bin'', File None)]),
                 (''.git'', Dir [(''HEAD'', File (Some [4]))])]
     = tree_files [(''.git'', Dir [(''HEAD'', File (Some [4]))]),
                   (''src'', Dir [(''c.bin'', File None), (''b.py'', File (Some [3]))]),
                   (''a.txt'', File (Some [1, 2]))]
   \<and> compute_file_signatures (\<lambda>bs. replicate (length bs) CHR ''0'' @ replicate 64 CHR ''f'')
        [(''a.txt'', File (Some [1, 2])),
         (''src'', Dir [(''b.py'', File (Some [3])), (''c.bin'', File None)]),
         (''.git'', Dir [(''HEAD'', File (Some [4]))])]
     = compute_file_signatures (\<lambda>bs. replicate (length bs) CHR ''0'' @ replicate 64 CHR ''f'')
        [(''.git'', Dir [(''HEAD'', File (Some [4]))]),
         (''src'', Dir [(''c.bin'', File None), (''b.py'', File (Some [3]))]),
         (''a.txt'', File (Some [1, 2]))]"
proof -
  let ?t1 = "[(''a.txt'', File (Some [1, 2])),
               (''src'', Dir [(''b.py'', File (Some [3])), (''c.bin'', File None)]),
               (''.git'', Dir [(''HEAD'', File (Some [4]))])]"
  let ?t2 = "[(''.git'', Dir [(''HEAD'', File (Some [4]))]),
                 (''src'', Dir [(''c.bin'', File None), (''b.py'', File (Some [3]))]),
                 (''a.txt'', File (Some [1, 2]))]"
  have v1: "valid_tree ?t1" by (simp add: valid_tree_def valid_name_def)
  have v2: "valid_tree ?t2" by (simp add: valid_tree_def valid_name_def)
  have same: "tree_files ?t1 = tree_files ?t2"
    by (auto simp: tree_files_def)
  from signatures_order_independent [OF v1 v2 same] v1 v2 same show ?thesis
    by blast
qed

text \<open>
  Claim C9. The computation always returns a mapping. In it every file outside the pruned
  directories that can be read and is smaller than 10 000 000 bytes is mapped to the first
  16 characters of the SHA-256 hex digest of its bytes; an unreadable file and a file of
  10 000 000 bytes or more have no entry; and there is no other entry.
\<close>

theorem partial_signature:
  assumes "valid_tree tree"
  shows "(\<forall>p content. (p, Some content) \<in> tree_files tree \<and> kept p \<and> length content < 10000000
            \<longrightarrow> compute_file_signatures H tree (join_path p) = Some (take 16 (H content)))
    \<and> (\<forall>p. (p, None) \<in> tree_files tree \<longrightarrow> compute_file_signatures H tree (join_path p) = None)
    \<and> (\<forall>p content. (p, Some content) \<in> tree_files tree \<and> 10000000 \<le> length content
            \<longrightarrow> compute_file_signatures H tree (join_path p) = None)
    \<and> (\<forall>k d. compute_file_signatures H tree k = Some d
            \<longrightarrow> (\<exists>p content. (p, Some content) \<in> tree_files tree \<and> kept p \<and> k = join_path p
                   \<and> length content < 10000000 \<and> d = take 16 (H content)))"
proof (intro conjI allI impI)
  fix p content
  assume "(p, Some content) \<in> tree_files tree \<and> kept p \<and> length content < 10000000"
  with signature_at [OF assms, of p "Some content" H]
  show "compute_file_signatures H tree (join_path p) = Some (take 16 (H content))"
    by (simp add: digest_of_def)
next
  fix p
  assume "(p, None) \<in> tree_files tree"
  with signature_at [OF assms, of p None H]
  show "compute_file_signatures H tree (join_path p) = None"
    by (simp add: digest_of_def)
next
  fix p content
  assume "(p, Some content) \<in> tree_files tree \<and> 10000000 \<le> length content"
  with signature_at [OF assms, of p "Some content" H]
  show "compute_file_signatures H tree (join_path p) = None"
    by (simp add: digest_of_def)
next
  fix k d
  assume "compute_file_signatures H tree k = Some d"
  with assms show "\<exists>p content. (p, Some content) \<in> tree_files tree \<and> kept p \<and> k = join_path p
                   \<and> length content < 10000000 \<and> d = take 16 (H content)"
    by (rule signature_source)
qed

theorem partial_signature_witness:
  "valid_tree [(''ok.txt'', File (Some [1, 2])), (''locked'', File None),
               (''big.bin'', File (Some (replicate 10000000 0)))]
   \<and> compute_file_signatures (\<lambda>bs. replicate (length bs) CHR ''0'' @ replicate 64 CHR ''f'')
        [(''ok.txt'', File (Some [1, 2])), (''locked'', File None),
         (''big.bin'', File (Some (replicate 10000000 0)))] ''ok.txt''
      = Some ''00ffffffffffffff''
   \<and> compute_file_signatures (\<lambda>bs. replicate (length bs) CHR ''0'' @ replicate 64 CHR ''f'')
        [(''ok.txt'', File (Some [1, 2])), (''locked'', File None),
         (''big.bin'', File (Some (replicate 10000000 0)))] ''locked''
      = None
   \<and> compute_file_signatures (\<lambda>bs. replicate (length bs) CHR ''0'' @ replicate 64 CHR ''f'')
        [(''ok.txt'', File (Some [1, 2])), (''locked'', File None),
         (''big.bin'', File (Some (replicate 10000000 0)))] ''big.bin''
      = None"
proof -
  let ?H = "\<lambda>bs :: bytes. replicate (length bs) CHR ''0'' @ replicate 64 CHR ''f''"
  let ?t = "[(''ok.txt'', File (Some [1, 2])), (''locked'', File None),
               (''big.bin'', File (Some (replicate 10000000 0)))]"
  have v: "valid_tree ?t" by (simp add: valid_tree_def valid_name_def)
  have f1: "([''ok.txt''], Some [1, 2]) \<in> tree_files ?t"
    and f2: "([''locked''], None) \<in> tree_files ?t"
    and f3: "([''big.bin''], Some (replicate 10000000 0)) \<in> tree_files ?t"
    by (simp_all add: tree_files_def)
  have k: "kept [''ok.txt'']" by (simp add: kept_def)
  have d: "take 16 (?H [1, 2]) = ''00ffffffffffffff''"
    by (simp add: numeral_eq_Suc)
  note inst = partial_signature [OF v, of ?H]
  from inst f1 k have "compute_file_signatures ?H ?t (join_path [''ok.txt'']) = Some (take 16 (?H [1, 2]))"
    by (elim conjE allE [of _ "[''ok.txt'']"] allE [of _ "[1, 2]"]) simp
  with d have a: "compute_file_signatures ?H ?t ''ok.txt'' = Some ''00ffffffffffffff''"
    by simp
  from inst f2 have b: "compute_file_signatures ?H ?t ''locked'' = None"
    by (metis join_path.simps(2))
  from inst f3 have "compute_file_signatures ?H ?t (join_path [''big.bin'']) = None"
    by (elim conjE allE [of _ "[''big.bin'']"] allE [of _ "replicate 10000000 0"]) simp
  then have c: "compute_file_signatures ?H ?t ''big.bin'' = None" by simp
  from v a b c show ?thesis by blast
qed

end
